theory Spec2Isabelle
  imports Main "HOL-Library.Word"
begin

unbundle bit_operations_syntax

section \<open>Strings and paths\<close>

text \<open>
  The helpers of Go's \<^verbatim>\<open>strings\<close> and \<^verbatim>\<open>path/filepath\<close> packages that
  \<^verbatim>\<open>f5.go\<close> calls, on Unix paths (separator \<^verbatim>\<open>/\<close>). A Go string is a byte
  sequence; here it is a \<^typ>\<open>string\<close>.
\<close>

definition HasPrefix :: "string \<Rightarrow> string \<Rightarrow> bool" where
  "HasPrefix s pre = (take (length pre) s = pre)"

fun Contains :: "string \<Rightarrow> string \<Rightarrow> bool" where
  "Contains [] substr = (substr = [])"
| "Contains (c # cs) substr = (HasPrefix (c # cs) substr \<or> Contains cs substr)"

definition IsPathSeparator :: "char \<Rightarrow> bool" where
  "IsPathSeparator c = (c = CHR ''/'')"

text \<open>
  \<^verbatim>\<open>filepath.Base\<close>: the empty path gives \<^verbatim>\<open>.\<close>; trailing separators are
  stripped; the last element is what follows the last separator; a path of separators
  only gives \<^verbatim>\<open>/\<close>.
\<close>

definition Base :: "string \<Rightarrow> string" where
  "Base path =
     (if path = [] then ''.''
      else let stripped = dropWhile IsPathSeparator (rev path);
               elem = rev (takeWhile (\<lambda>c. \<not> IsPathSeparator c) stripped)
           in if elem = [] then ''/'' else elem)"

text \<open>
  \<^verbatim>\<open>filepath.Ext\<close>: scanning from the end, the suffix that starts at the last dot
  of the last element; empty when a separator or the start is met first.
  \<open>Ext_scan\<close> is that loop: its first argument is what is still to the left of the
  index (reversed), its second the suffix already passed.
\<close>

fun Ext_scan :: "string \<Rightarrow> string \<Rightarrow> string" where
  "Ext_scan [] suffix = []"
| "Ext_scan (c # left) suffix =
     (if IsPathSeparator c then []
      else if c = CHR ''.'' then c # suffix
      else Ext_scan left (c # suffix))"

definition Ext :: "string \<Rightarrow> string" where
  "Ext path = Ext_scan (rev path) []"

text \<open>
  \<^verbatim>\<open>filepath.Clean\<close>, element by element. \<open>path_elems\<close> is what lies between
  the separators of a path. \<open>clean_elems\<close> goes through the elements with the
  elements written so far: an empty element and \<^verbatim>\<open>.\<close> are dropped; \<^verbatim>\<open>..\<close> removes
  the last element written when there is one that is not itself \<^verbatim>\<open>..\<close>, is kept
  when there is none and the path is not rooted, and is dropped at the root; any other
  element is written. The result is the elements joined by separators, after the root's
  separator when the path is rooted, and \<^verbatim>\<open>.\<close> when nothing is left.
\<close>

fun path_elems :: "string \<Rightarrow> string list" where
  "path_elems [] = [[]]"
| "path_elems (c # cs) =
     (if IsPathSeparator c then [] # path_elems cs
      else (case path_elems cs of [] \<Rightarrow> [[c]] | e # es \<Rightarrow> (c # e) # es))"

fun clean_elems :: "bool \<Rightarrow> string list \<Rightarrow> string list \<Rightarrow> string list" where
  "clean_elems rooted [] out = out"
| "clean_elems rooted (e # es) out =
     (if e = [] \<or> e = ''.'' then clean_elems rooted es out
      else if e = ''..'' then
        (if out \<noteq> [] \<and> last out \<noteq> ''..'' then clean_elems rooted es (butlast out)
         else if \<not> rooted then clean_elems rooted es (out @ [''..''])
         else clean_elems rooted es out)
      else clean_elems rooted es (out @ [e]))"

fun join_elems :: "string list \<Rightarrow> string" where
  "join_elems [] = []"
| "join_elems [e] = e"
| "join_elems (e # es) = e @ ''/'' @ join_elems es"

definition Clean :: "string \<Rightarrow> string" where
  "Clean path =
     (if path = [] then ''.''
      else let rooted = IsPathSeparator (hd path);
               out = clean_elems rooted (path_elems path) []
           in if rooted then ''/'' @ join_elems out
              else if out = [] then ''.''
              else join_elems out)"

text \<open>
  \<^verbatim>\<open>filepath.Join\<close> of two elements: empty elements are ignored, the others are
  joined by a separator and the result is cleaned; with both empty it is empty.
\<close>

definition Join :: "string \<Rightarrow> string \<Rightarrow> string" where
  "Join path name =
     (if path \<noteq> [] then Clean (path @ ''/'' @ name)
      else if name \<noteq> [] then Clean name
      else [])"

section \<open>Package variables and constants\<close>

definition supportedExtensions :: "string list" where
  "supportedExtensions =
     [''.py'', ''.js'', ''.java'', ''.ts'', ''.go'',
      ''.cpp'', ''.rb'', ''.php'', ''.cs'', ''.c'']"

text \<open>
  \<^verbatim>\<open>init\<close> fills \<open>supportedExtensionMap\<close> from the list; reading a Go map at a
  key it does not hold gives the zero value \<^verbatim>\<open>false\<close>.
\<close>

definition init_supportedExtensionMap :: "string \<rightharpoonup> bool" where
  "init_supportedExtensionMap = foldl (\<lambda>m s. m(s \<mapsto> True)) Map.empty supportedExtensions"

definition supportedExtensionMap :: "string \<Rightarrow> bool" where
  "supportedExtensionMap k =
     (case init_supportedExtensionMap k of None \<Rightarrow> False | Some b \<Rightarrow> b)"

definition colorReset :: string where "colorReset = CHR 0x1B # ''[0m''"
definition colorRed :: string where "colorRed = CHR 0x1B # ''[31m''"
definition colorGreen :: string where "colorGreen = CHR 0x1B # ''[32m''"
definition colorPurple :: string where "colorPurple = CHR 0x1B # ''[35m''"
definition colorCyan :: string where "colorCyan = CHR 0x1B # ''[36m''"
definition colorWhite :: string where "colorWhite = CHR 0x1B # ''[37m''"

definition separator :: string where
  "separator = replicate 66 (CHR ''-'')"

section \<open>The operating system and the trace of effects\<close>

datatype signal = SIGINT | SIGKILL

text \<open>The errors of \<^verbatim>\<open>kill(2)\<close>, with the text \<^verbatim>\<open>syscall.Errno.Error\<close> gives.\<close>

datatype errno = EPERM | ESRCH | EINVAL

fun errno_Error :: "errno \<Rightarrow> string" where
  "errno_Error EPERM = ''operation not permitted''"
| "errno_Error ESRCH = ''no such process''"
| "errno_Error EINVAL = ''invalid argument''"

text \<open>
  An \<^verbatim>\<open>error\<close> value of Go: the sentinel \<^verbatim>\<open>filepath.SkipDir\<close>, an errno of a
  system call, or any other error, given by its message.
\<close>

datatype error = SkipDir | Errno errno | Err string

fun Error :: "error \<Rightarrow> string" where
  "Error SkipDir = ''skip this directory''"
| "Error (Errno e) = errno_Error e"
| "Error (Err msg) = msg"

text \<open>An argument of a \<^verbatim>\<open>Printf\<close> call.\<close>

datatype val = IntV int | StrV string | ErrV error | CmdV "string list"

text \<open>
  Everything the program does to the world outside the \<^verbatim>\<open>Run\<close> struct, in the
  order it does it: system calls, the watcher and the terminal once they are obtained
  and the calls on them, lines handed to the two loggers and to standard output (format
  and arguments, unformatted), and the goroutines it starts.
\<close>

datatype goroutine = ConsumerLoop | WatchLoop | KeyLoop | CmdWait int

datatype effect =
    SyscallKill int signal
  | CmdStart "string list"
  | LoggerPrintf string "val list"
  | UsagePrintf string "val list"
  | FmtPrintf string "val list"
  | WatcherCreated
  | TermOpened
  | TermSetCbreak
  | TermRestore
  | WatcherAdd string
  | WatcherClose
  | Go goroutine

text \<open>
  A directory entry as \<^verbatim>\<open>fs.DirEntry\<close> and \<^verbatim>\<open>fs.FileInfo\<close> describe it: a
  name, whether it is a directory and, for a directory, what reading it returns: its
  entries in the order \<^verbatim>\<open>ReadDir\<close> lists them (an entry is a file or a
  directory), or an error, given by its message.
\<close>

datatype DirEntry =
    File string
  | Dir string "DirEntry list"
  | Unreadable string string

fun Name :: "DirEntry \<Rightarrow> string" where
  "Name (File n) = n"
| "Name (Dir n entries) = n"
| "Name (Unreadable n msg) = n"

fun IsDir :: "DirEntry \<Rightarrow> bool" where
  "IsDir (File n) = False"
| "IsDir (Dir n entries) = True"
| "IsDir (Unreadable n msg) = True"

fun ReadDir :: "DirEntry \<Rightarrow> error + DirEntry list" where
  "ReadDir (File n) = Inl (Err ''not a directory'')"
| "ReadDir (Dir n entries) = Inr entries"
| "ReadDir (Unreadable n msg) = Inl (Err msg)"

text \<open>
  What the environment answers: \<open>sys_kill target sig\<close> is the result of
  \<^verbatim>\<open>syscall.Kill\<close>; \<open>cmd_Start n\<close> is the result of the \<open>n\<close>-th call of
  \<^verbatim>\<open>cmd.Start\<close> (the new process id, or an error); the others are the results of
  the calls they are named after, \<open>Lstat\<close> being that of the working directory. An
  error of these calls is given by its message.
\<close>

record os =
  sys_kill :: "int \<Rightarrow> signal \<Rightarrow> errno option"
  cmd_Start :: "nat \<Rightarrow> string + int"
  NewWatcher :: "string option"
  term_Open :: "string option"
  Getwd :: "string + string"
  Lstat :: "string + DirEntry"

section \<open>The Run struct\<close>

text \<open>
  \<open>args\<close>, \<open>process\<close> (the process id of \<^verbatim>\<open>*os.Process\<close>, \<open>None\<close> for
  \<^verbatim>\<open>nil\<close>) and \<open>restart\<close> (the contents of the buffered channel, oldest first)
  are the fields of the struct. \<open>prefix\<close> is the prefix the two loggers were made with,
  format and arguments. The watcher and the terminal are objects outside the struct:
  what is done to them is in \<open>trace\<close>. \<open>started\<close> counts the calls of
  \<^verbatim>\<open>cmd.Start\<close>.
\<close>

record Run =
  args :: "string list"
  process :: "int option"
  restart :: "bool list"
  prefix :: "string \<times> val list"
  trace :: "effect list"
  started :: nat

definition restart_cap :: nat where
  "restart_cap = 100"

definition emit :: "effect \<Rightarrow> Run \<Rightarrow> Run" where
  "emit e r = r\<lparr>trace := trace r @ [e]\<rparr>"

definition printf :: "string \<Rightarrow> string \<Rightarrow> val list \<Rightarrow> Run \<Rightarrow> Run" where
  "printf color format a r = emit (LoggerPrintf (color @ format @ colorReset) a) r"

definition usagef :: "string \<Rightarrow> string \<Rightarrow> val list \<Rightarrow> Run \<Rightarrow> Run" where
  "usagef color format a r = emit (UsagePrintf (color @ format @ colorReset) a) r"

section \<open>New\<close>

text \<open>
  The outcome of a call that can return an error or panic, with what it had done to
  the world when it failed. \<^verbatim>\<open>args[0]\<close> on an empty slice is a run-time panic, not
  an error value.
\<close>

datatype 'a outcome =
    Returned 'a
  | Failed error "effect list"
  | Panicked string "effect list"

text \<open>The texts of the two run-time panics the program can end in.\<close>

definition index_out_of_range :: string where
  "index_out_of_range = ''runtime error: index out of range [0] with length 0''"

definition nil_dereference :: string where
  "nil_dereference = ''runtime error: invalid memory address or nil pointer dereference''"

definition New :: "os \<Rightarrow> string list \<Rightarrow> Run outcome" where
  "New env as =
     (case NewWatcher env of
        Some msg \<Rightarrow> Failed (Err msg) []
      | None \<Rightarrow>
          (case term_Open env of
             Some msg \<Rightarrow> Failed (Err msg) [WatcherCreated]
           | None \<Rightarrow>
               (case as of
                  [] \<Rightarrow>
                    Panicked index_out_of_range [WatcherCreated, TermOpened]
                | a0 # rest \<Rightarrow>
                    Returned
                      \<lparr>args = as, process = None, restart = [],
                       prefix = (''%s[Press F5 to refresh %q] %s'',
                                 [StrV colorGreen, StrV (Base a0), StrV colorReset]),
                       trace = [WatcherCreated, TermOpened], started = 0\<rparr>)))"

section \<open>kill, Close and Restart\<close>

definition kill :: "os \<Rightarrow> Run \<Rightarrow> Run" where
  "kill env r =
     (case process r of
        None \<Rightarrow> r
      | Some pid \<Rightarrow>
          (let r1 = emit (SyscallKill (- pid) SIGINT) r;
               r2 =
                 (case sys_kill env (- pid) SIGINT of
                    None \<Rightarrow> r1
                  | Some err \<Rightarrow>
                      if \<not> Contains (errno_Error err) ''no such process'' then
                        (let r3 = printf colorRed ''Process %d: cannot interrupt: %v''
                                    [IntV pid, ErrV (Errno err)] r1;
                             r4 = printf colorPurple ''Process %d: sending sigkill''
                                    [IntV pid] r3;
                             r5 = emit (SyscallKill (- pid) SIGKILL) r4
                         in case sys_kill env (- pid) SIGKILL of
                              None \<Rightarrow> r5
                            | Some err' \<Rightarrow>
                                printf colorRed ''Process %d: cannot be killed: %v''
                                  [IntV pid, ErrV (Errno err')] r5)
                      else r1)
           in r2\<lparr>process := None\<rparr>))"

definition Close :: "os \<Rightarrow> Run \<Rightarrow> Run" where
  "Close env r = kill env (emit WatcherClose (emit TermRestore r))"

text \<open>
  \<^verbatim>\<open>Restart\<close>: kill, then start the command in a process group of its own. When
  the start fails the failure is logged and \<open>process\<close> stays \<^verbatim>\<open>nil\<close>. The
  command is built from \<^verbatim>\<open>r.args[0]\<close> and \<^verbatim>\<open>r.args[1:]\<close>; the field is
  unexported and every \<^verbatim>\<open>Run\<close> that \<open>New\<close> returns has a non-empty \<open>args\<close>
  (\<open>New_args\<close> below), so that index is in range.
\<close>

definition Restart :: "os \<Rightarrow> Run \<Rightarrow> Run" where
  "Restart env r =
     (let r1 = kill env r;
          r2 = (emit (CmdStart (args r1)) r1)\<lparr>started := Suc (started r1)\<rparr>
      in case cmd_Start env (started r1) of
           Inl msg \<Rightarrow> printf colorRed ''Cannot run command: %v'' [ErrV (Err msg)] r2
         | Inr pid \<Rightarrow>
             (let r3 = r2\<lparr>process := Some pid\<rparr>;
                  r4 = emit (FmtPrintf ''%s%s\<newline>'' [StrV colorGreen, StrV separator]) r3;
                  r5 = printf colorWhite ''Process %d started for command: %s%s''
                         [IntV pid, StrV colorCyan, CmdV (args r1)] r4;
                  r6 = emit (FmtPrintf ''%s%s%s\<newline>''
                         [StrV colorGreen, StrV separator, StrV colorReset]) r5
              in emit (Go (CmdWait pid)) r6))"


section \<open>The directory scan\<close>

text \<open>
  \<^verbatim>\<open>filepath.WalkDir\<close> of Go's library, with the state the callback closes over
  (the slice \<^verbatim>\<open>dirs\<close>) passed along. The callback gets the path, the entry
  (\<open>None\<close> for \<^verbatim>\<open>nil\<close>) and the error of reading it; it returns \<^verbatim>\<open>nil\<close>,
  \<^verbatim>\<open>SkipDir\<close> or an error. \<open>walkDir\<close> calls it on the entry first; for a
  directory it then reads the directory, reports a read error with a second call, and
  walks the entries in order. \<^verbatim>\<open>SkipDir\<close> from a directory skips that directory,
  from another entry it skips the rest of the directory the entry is in; any other
  error ends the walk.
\<close>

type_synonym WalkDirFunc =
  "string \<Rightarrow> DirEntry option \<Rightarrow> error option \<Rightarrow> string list \<Rightarrow> error option \<times> string list"

fun walkDir :: "WalkDirFunc \<Rightarrow> string \<Rightarrow> DirEntry \<Rightarrow> string list \<Rightarrow> error option \<times> string list"
  and walkEntries :: "WalkDirFunc \<Rightarrow> string \<Rightarrow> DirEntry list \<Rightarrow> string list \<Rightarrow> error option \<times> string list"
where
  "walkDir fn path (File n) st = fn path (Some (File n)) None st"
| "walkDir fn path (Unreadable n msg) st =
     (case fn path (Some (Unreadable n msg)) None st of
        (Some err, st1) \<Rightarrow> (if err = SkipDir then None else Some err, st1)
      | (None, st1) \<Rightarrow>
          (case fn path (Some (Unreadable n msg)) (Some (Err msg)) st1 of
             (Some err, st2) \<Rightarrow> (if err = SkipDir then None else Some err, st2)
           | (None, st2) \<Rightarrow> (None, st2)))"
| "walkDir fn path (Dir n entries) st =
     (case fn path (Some (Dir n entries)) None st of
        (Some err, st1) \<Rightarrow> (if err = SkipDir then None else Some err, st1)
      | (None, st1) \<Rightarrow> walkEntries fn path entries st1)"
| "walkEntries fn path [] st = (None, st)"
| "walkEntries fn path (d1 # ds) st =
     (case walkDir fn (Join path (Name d1)) d1 st of
        (Some err, st1) \<Rightarrow> (if err = SkipDir then None else Some err, st1)
      | (None, st1) \<Rightarrow> walkEntries fn path ds st1)"

definition WalkDir :: "WalkDirFunc \<Rightarrow> string \<Rightarrow> string + DirEntry \<Rightarrow> string list \<Rightarrow> error option \<times> string list" where
  "WalkDir fn root lstat st =
     (case (case lstat of
              Inl msg \<Rightarrow> fn root None (Some (Err msg)) st
            | Inr info \<Rightarrow> walkDir fn root info st) of
        (err, st1) \<Rightarrow> (if err = Some SkipDir then None else err, st1))"

text \<open>
  The loop of the callback over the entries of a directory: at the first entry whose
  name has a supported extension the directory is appended and the callback returns.
\<close>

fun range_files :: "DirEntry list \<Rightarrow> string \<Rightarrow> string list \<Rightarrow> error option \<times> string list" where
  "range_files [] s dirs = (None, dirs)"
| "range_files (f # files) s dirs =
     (if supportedExtensionMap (Ext (Name f)) then (None, dirs @ [s])
      else range_files files s dirs)"

text \<open>
  The callback \<^verbatim>\<open>watch\<close> gives to \<^verbatim>\<open>WalkDir\<close>. (With neither an entry nor an
  error the Go code would dereference \<^verbatim>\<open>nil\<close>; \<^verbatim>\<open>WalkDir\<close> makes no such
  call.)
\<close>

definition walkFn :: WalkDirFunc where
  "walkFn s d err dirs =
     (case err of
        Some e \<Rightarrow> (Some e, dirs)
      | None \<Rightarrow>
          (case d of
             None \<Rightarrow> (Some (Err ''nil pointer dereference''), dirs)
           | Some entry \<Rightarrow>
               if \<not> IsDir entry then (None, dirs)
               else if HasPrefix (Base s) ''.'' then (Some SkipDir, dirs)
               else (case ReadDir entry of
                       Inl e \<Rightarrow> (Some e, dirs)
                     | Inr files \<Rightarrow> range_files files s dirs)))"

text \<open>The loop of \<^verbatim>\<open>watch\<close> that lists and registers the directories, from index \<open>i\<close>.\<close>

fun add_dirs :: "nat \<Rightarrow> string list \<Rightarrow> Run \<Rightarrow> Run" where
  "add_dirs i [] r = r"
| "add_dirs i (d # ds) r =
     add_dirs (Suc i) ds
       (emit (WatcherAdd d) (usagef colorWhite ''%3d. %s'' [IntV (int i + 1), StrV d] r))"

text \<open>
  \<^verbatim>\<open>watch\<close> up to the \<^verbatim>\<open>go\<close> statement: what \<^verbatim>\<open>WalkDir\<close> returns is not
  assigned, only \<^verbatim>\<open>dirs\<close> is read after it.
\<close>

definition watch :: "os \<Rightarrow> Run \<Rightarrow> error option \<times> Run" where
  "watch env r =
     (case Getwd env of
        Inl msg \<Rightarrow> (Some (Err msg), r)
      | Inr wd \<Rightarrow>
          (let dirs = snd (WalkDir walkFn wd (Lstat env) []);
               r1 = usagef colorWhite ''The following directories are being monitored'' [] r;
               r2 = add_dirs 0 dirs r1
           in (None, emit (Go WatchLoop) r2)))"

section \<open>The restart channel\<close>

text \<open>
  \<^verbatim>\<open>r.restart <- true\<close> on the channel made with \<^verbatim>\<open>make(chan bool, 100)\<close>: a
  send on a buffered channel puts the value in the buffer when there is room, and
  blocks the sending goroutine while the buffer is full. \<open>None\<close> is the blocked send.
\<close>

definition chan_send :: "Run \<Rightarrow> Run option" where
  "chan_send r =
     (if length (restart r) < restart_cap then Some (r\<lparr>restart := restart r @ [True]\<rparr>)
      else None)"

section \<open>Start and the goroutines\<close>

text \<open>
  How a loop over a finite sequence of inputs ends: it returned, it is waiting for the
  next input, it is blocked in a send, or it panicked.
\<close>

datatype loop_end = Exited | Waiting | Blocked | Panicking string

text \<open>
  The consumer loop of \<^verbatim>\<open>Start\<close>. An input is the case its \<^verbatim>\<open>select\<close> takes:
  a value received from \<^verbatim>\<open>r.restart\<close> (possible only when the channel holds one),
  or \<^verbatim>\<open>ctx.Done()\<close>.
\<close>

datatype consumer_case = RestartRecv | CtxDone

fun consumer_loop :: "os \<Rightarrow> consumer_case list \<Rightarrow> Run \<Rightarrow> loop_end \<times> Run" where
  "consumer_loop env [] r = (Waiting, r)"
| "consumer_loop env (CtxDone # rest) r = (Exited, r)"
| "consumer_loop env (RestartRecv # rest) r =
     (case restart r of
        [] \<Rightarrow> (Waiting, r)
      | v # queued \<Rightarrow> consumer_loop env rest (Restart env (r\<lparr>restart := queued\<rparr>)))"

text \<open>
  \<^verbatim>\<open>Start\<close>: the banner, the \<^verbatim>\<open>go\<close> statement of the consumer loop, \<^verbatim>\<open>watch\<close>,
  and on return the deferred send. The consumer loop is running by then; the second
  argument is what its \<^verbatim>\<open>select\<close> takes before the deferred send completes, which
  depends on the context \<^verbatim>\<open>Start\<close> was given. \<open>None\<close>: after those turns the
  queue is full and the send is blocked.
\<close>

definition Start :: "os \<Rightarrow> consumer_case list \<Rightarrow> Run \<Rightarrow> (error option \<times> Run) option" where
  "Start env consumer r =
     (let r1 = emit (FmtPrintf ''%s%s\<newline>'' [StrV colorGreen, StrV separator]) r;
          r2 = usagef colorWhite
                 ''To restart the running program, press F5 or SPACE or Ctrl-R, or just make file changes.''
                 [] r1;
          r3 = emit (Go ConsumerLoop) r2
      in case watch env r3 of
           (err, r4) \<Rightarrow>
             (case chan_send (snd (consumer_loop env consumer r4)) of
                None \<Rightarrow> None
              | Some r5 \<Rightarrow> Some (err, r5)))"

text \<open>
  The loop of the goroutine \<^verbatim>\<open>watch\<close> starts. \<^verbatim>\<open>fsnotify.Op\<close> is a 32-bit mask;
  a receive from a closed channel is \<open>None\<close>. \<^verbatim>\<open>watcher.Close\<close> is deferred.
\<close>

record Event =
  ev_Name :: string
  ev_Op :: "32 word"

definition fsnotify_Create :: "32 word" where "fsnotify_Create = 1"
definition fsnotify_Write :: "32 word" where "fsnotify_Write = 2"
definition fsnotify_Remove :: "32 word" where "fsnotify_Remove = 4"
definition fsnotify_Rename :: "32 word" where "fsnotify_Rename = 8"
definition fsnotify_Chmod :: "32 word" where "fsnotify_Chmod = 16"

datatype watch_case =
    WatchCtxDone
  | EventsRecv "Event option"
  | ErrorsRecv "error option"

fun watch_loop :: "watch_case list \<Rightarrow> Run \<Rightarrow> loop_end \<times> Run" where
  "watch_loop [] r = (Waiting, r)"
| "watch_loop (WatchCtxDone # rest) r = (Exited, emit WatcherClose r)"
| "watch_loop (EventsRecv None # rest) r =
     (Exited, emit WatcherClose (printf colorRed ''Unknown event, halting.'' [] r))"
| "watch_loop (EventsRecv (Some event) # rest) r =
     (if ev_Op event AND fsnotify_Write \<noteq> fsnotify_Write then watch_loop rest r
      else if \<not> supportedExtensionMap (Ext (ev_Name event)) then watch_loop rest r
      else (case chan_send (printf colorGreen ''Modified file: %s'' [StrV (ev_Name event)] r) of
              None \<Rightarrow> (Blocked, printf colorGreen ''Modified file: %s'' [StrV (ev_Name event)] r)
            | Some r1 \<Rightarrow> watch_loop rest r1))"
| "watch_loop (ErrorsRecv None # rest) r =
     (Exited, emit WatcherClose (printf colorRed ''Unknown error, halting.'' [] r))"
| "watch_loop (ErrorsRecv (Some err) # rest) r =
     watch_loop rest (printf colorRed ''Error:'' [ErrV err] r)"

text \<open>
  \<^verbatim>\<open>ListenForKeys\<close>. An input is one turn of its loop: \<^verbatim>\<open>ctx.Err()\<close> is not
  \<^verbatim>\<open>nil\<close>; or it is \<^verbatim>\<open>nil\<close> and \<^verbatim>\<open>terminput.Read\<close> gives a key, known by
  its \<^verbatim>\<open>String()\<close>; or the read fails. The error of a failed read is discarded
  and the value is \<^verbatim>\<open>nil\<close>, so \<^verbatim>\<open>e.String()\<close> panics. \<^verbatim>\<open>term.Restore\<close> is
  deferred: it runs when the function returns and when it panics.
\<close>

datatype key_case = CtxErr | KeyRead string | ReadFails string

definition on_key :: "os \<Rightarrow> string \<Rightarrow> Run \<Rightarrow> Run" where
  "on_key env k r =
     (if k = ''DC2'' then Restart env r
      else if k = '' '' then Restart env r
      else if k = ''F5'' then Restart env r
      else r)"

fun keys_loop :: "os \<Rightarrow> key_case list \<Rightarrow> Run \<Rightarrow> loop_end \<times> Run" where
  "keys_loop env [] r = (Waiting, r)"
| "keys_loop env (CtxErr # rest) r = (Exited, r)"
| "keys_loop env (KeyRead k # rest) r = keys_loop env rest (on_key env k r)"
| "keys_loop env (ReadFails msg # rest) r = (Panicking nil_dereference, r)"

definition ListenForKeys :: "os \<Rightarrow> key_case list \<Rightarrow> Run \<Rightarrow> loop_end \<times> Run" where
  "ListenForKeys env inputs r =
     (case keys_loop env inputs (emit TermSetCbreak r) of
        (Exited, r1) \<Rightarrow> (Exited, emit TermRestore r1)
      | (Panicking msg, r1) \<Rightarrow> (Panicking msg, emit TermRestore r1)
      | (e, r1) \<Rightarrow> (e, r1))"


section \<open>main\<close>

text \<open>
  \<^verbatim>\<open>Restart\<close> statement by statement, for two goroutines that are inside it at the
  same time: the call of \<^verbatim>\<open>kill\<close>, the call of \<^verbatim>\<open>cmd.Start\<close>, and the rest
  from the assignment to \<^verbatim>\<open>r.process\<close> on. The process id \<^verbatim>\<open>cmd.Start\<close> gave
  is local to the goroutine until it is assigned.
\<close>

datatype restart_pc = AtKill | AtStart | AtAssign int | AtReturn

fun Restart_step :: "os \<Rightarrow> restart_pc \<Rightarrow> Run \<Rightarrow> restart_pc \<times> Run" where
  "Restart_step env AtKill r = (AtStart, kill env r)"
| "Restart_step env AtStart r =
     (let r2 = (emit (CmdStart (args r)) r)\<lparr>started := Suc (started r)\<rparr>
      in case cmd_Start env (started r) of
           Inl msg \<Rightarrow> (AtReturn, printf colorRed ''Cannot run command: %v'' [ErrV (Err msg)] r2)
         | Inr pid \<Rightarrow> (AtAssign pid, r2))"
| "Restart_step env (AtAssign pid) r =
     (let r3 = r\<lparr>process := Some pid\<rparr>;
          r4 = emit (FmtPrintf ''%s%s\<newline>'' [StrV colorGreen, StrV separator]) r3;
          r5 = printf colorWhite ''Process %d started for command: %s%s''
                 [IntV pid, StrV colorCyan, CmdV (args r)] r4;
          r6 = emit (FmtPrintf ''%s%s%s\<newline>''
                 [StrV colorGreen, StrV separator, StrV colorReset]) r5
      in (AtReturn, emit (Go (CmdWait pid)) r6))"
| "Restart_step env AtReturn r = (AtReturn, r)"

text \<open>
  The consumer loop and the key listener both in \<^verbatim>\<open>Restart\<close>; the schedule says
  which of the two executes its next statement.
\<close>

datatype restarter = Consumer | KeyListener

fun interleave :: "os \<Rightarrow> restarter list \<Rightarrow> restart_pc \<times> restart_pc \<times> Run \<Rightarrow> restart_pc \<times> restart_pc \<times> Run" where
  "interleave env [] s = s"
| "interleave env (Consumer # sched) (pc_c, pc_k, r) =
     (case Restart_step env pc_c r of (pc', r') \<Rightarrow> interleave env sched (pc', pc_k, r'))"
| "interleave env (KeyListener # sched) (pc_c, pc_k, r) =
     (case Restart_step env pc_k r of (pc', r') \<Rightarrow> interleave env sched (pc_c, pc', r'))"

text \<open>
  What the goroutines do while \<^verbatim>\<open>main\<close> waits for a signal, one loop turn at a
  time. The context of \<^verbatim>\<open>main\<close> is \<^verbatim>\<open>context.Background()\<close>, which is never
  done: the consumer loop can only receive, and the key listener ends only by
  panicking on a failed read. A turn of the watch loop while it is blocked in its send
  retries the send. A panic in a goroutine ends the whole program once the deferred
  calls of that goroutine have run: \<open>panicked\<close> holds its text, and no turn is taken
  after it.
\<close>

datatype turn =
    ConsumerTurn
  | WatchEvents "Event option"
  | WatchErrors "error option"
  | KeyTurn string
  | KeyReadFails string

record sys =
  run :: Run
  watch_at :: loop_end
  keys_begun :: bool
  panicked :: "string option"

definition watch_turn :: "watch_case \<Rightarrow> sys \<Rightarrow> sys" where
  "watch_turn c s =
     (case watch_at s of
        Exited \<Rightarrow> s
      | Panicking msg \<Rightarrow> s
      | Blocked \<Rightarrow>
          (case chan_send (run s) of
             None \<Rightarrow> s
           | Some r1 \<Rightarrow> s\<lparr>run := r1, watch_at := Waiting\<rparr>)
      | Waiting \<Rightarrow>
          (case watch_loop [c] (run s) of
             (at, r1) \<Rightarrow> s\<lparr>run := r1, watch_at := at\<rparr>))"

text \<open>
  A turn of the key listener: \<^verbatim>\<open>SetCbreak\<close> first when it is its first, then one
  turn of the loop; when that panics, the deferred \<^verbatim>\<open>Restore\<close>.
\<close>

definition key_turn :: "os \<Rightarrow> key_case \<Rightarrow> sys \<Rightarrow> sys" where
  "key_turn env c s =
     (case keys_loop env [c] (if keys_begun s then run s else emit TermSetCbreak (run s)) of
        (Panicking msg, r1) \<Rightarrow>
          s\<lparr>run := emit TermRestore r1, keys_begun := True, panicked := Some msg\<rparr>
      | (e, r1) \<Rightarrow> s\<lparr>run := r1, keys_begun := True\<rparr>)"

fun take_turn :: "os \<Rightarrow> turn \<Rightarrow> sys \<Rightarrow> sys" where
  "take_turn env ConsumerTurn s = s\<lparr>run := snd (consumer_loop env [RestartRecv] (run s))\<rparr>"
| "take_turn env (KeyTurn k) s = key_turn env (KeyRead k) s"
| "take_turn env (KeyReadFails msg) s = key_turn env (ReadFails msg) s"
| "take_turn env (WatchEvents ev) s = watch_turn (EventsRecv ev) s"
| "take_turn env (WatchErrors err) s = watch_turn (ErrorsRecv err) s"

fun take_turns :: "os \<Rightarrow> turn list \<Rightarrow> sys \<Rightarrow> sys" where
  "take_turns env [] s = s"
| "take_turns env (t # ts) s =
     (case panicked s of
        Some msg \<Rightarrow> s
      | None \<Rightarrow> take_turns env ts (take_turn env t s))"

text \<open>
  \<^verbatim>\<open>main\<close>, with the arguments of the command line and the turns the goroutines take
  before the signal arrives. It ends in \<^verbatim>\<open>log.Fatalf\<close> (which exits at once), in
  a panic (of \<open>New\<close>, or of the key listener), or by returning after \<^verbatim>\<open>Close\<close>;
  the result is how it ends and everything the program did. The queue is empty when
  \<open>main\<close> calls \<open>Start\<close>, so the consumer loop has nothing to receive before the
  deferred send (\<open>Start_consumer_idle\<close> below).
\<close>

datatype exit = Fatalf string error | Panic string | Return | Hang

definition main :: "os \<Rightarrow> string list \<Rightarrow> turn list \<Rightarrow> exit \<times> effect list" where
  "main env flag_Args sched =
     (case New env flag_Args of
        Failed err done \<Rightarrow> (Fatalf ''cannot create f5: %v'' err, done)
      | Panicked msg done \<Rightarrow> (Panic msg, done)
      | Returned r \<Rightarrow>
          (case Start env [] r of
             None \<Rightarrow> (Hang, trace r)
           | Some (Some err, r1) \<Rightarrow> (Fatalf ''cannot run: %v'' err, trace r1)
           | Some (None, r1) \<Rightarrow>
               (let s = take_turns env sched
                          \<lparr>run = emit (Go KeyLoop) r1, watch_at = Waiting,
                           keys_begun = False, panicked = None\<rparr>
                in case panicked s of
                     Some msg \<Rightarrow> (Panic msg, trace (run s))
                   | None \<Rightarrow> (Return, trace (Close env (run s))))))"

section \<open>The contract of the directory scan\<close>

text \<open>
  The scan as the specification words it. A directory is hidden when its base name
  starts with a dot. A directory qualifies when it directly contains at least one
  file, an entry that is not a directory, whose extension is in the allow-list.
  \<open>Watch_Set_spec\<close> is the pre-order, depth-first list of the qualifying
  directories, a hidden directory left out with its whole subtree.

  \<open>Watch_Set\<close> is that list for any test on the entries of a directory.
  \<open>lists_supported\<close> is the test the code makes: some entry of the listing, file or
  directory, has a name with a supported extension.
\<close>

definition hidden :: "string \<Rightarrow> bool" where
  "hidden path = HasPrefix (Base path) ''.''"

definition qualifies :: "DirEntry list \<Rightarrow> bool" where
  "qualifies entries =
     (\<exists>f \<in> set entries. \<not> IsDir f \<and> Ext (Name f) \<in> set supportedExtensions)"

definition lists_supported :: "DirEntry list \<Rightarrow> bool" where
  "lists_supported entries = (\<exists>f \<in> set entries. Ext (Name f) \<in> set supportedExtensions)"

fun Watch_Set :: "(DirEntry list \<Rightarrow> bool) \<Rightarrow> string \<Rightarrow> DirEntry \<Rightarrow> string list" where
  "Watch_Set test path (File n) = []"
| "Watch_Set test path (Unreadable n msg) = []"
| "Watch_Set test path (Dir n entries) =
     (if hidden path then []
      else (if test entries then [path] else []) @
           concat (map (\<lambda>e. Watch_Set test (Join path (Name e)) e) entries))"

definition Watch_Set_spec :: "string \<Rightarrow> DirEntry \<Rightarrow> string list" where
  "Watch_Set_spec path d = Watch_Set qualifies path d"

text \<open>
  \<open>readable path d\<close>: the walk of \<open>d\<close> at \<open>path\<close> meets no directory that cannot
  be read; a directory below a hidden one is not met.
\<close>

fun readable :: "string \<Rightarrow> DirEntry \<Rightarrow> bool" where
  "readable path (File n) = True"
| "readable path (Unreadable n msg) = hidden path"
| "readable path (Dir n entries) =
     (hidden path \<or> (\<forall>e \<in> set entries. readable (Join path (Name e)) e))"

text \<open>
  A name as \<^verbatim>\<open>ReadDir\<close> gives it: not empty, not \<^verbatim>\<open>.\<close> or \<^verbatim>\<open>..\<close>, without a
  separator.
\<close>

definition valid_name :: "string \<Rightarrow> bool" where
  "valid_name name =
     (name \<noteq> [] \<and> name \<noteq> ''.'' \<and> name \<noteq> ''..'' \<and> CHR ''/'' \<notin> set name)"

text \<open>
  \<open>visible wd root p d\<close>: \<open>d\<close> is a directory of the tree \<open>root\<close> at \<open>wd\<close>, its
  path is \<open>p\<close>, and neither it nor any directory above it up to the root is hidden.
\<close>

inductive visible :: "string \<Rightarrow> DirEntry \<Rightarrow> string \<Rightarrow> DirEntry \<Rightarrow> bool"
  for wd :: string and root :: DirEntry where
  root: "IsDir root \<Longrightarrow> \<not> hidden wd \<Longrightarrow> visible wd root wd root"
| child: "visible wd root p (Dir n entries) \<Longrightarrow> e \<in> set entries \<Longrightarrow> IsDir e \<Longrightarrow>
          \<not> hidden (Join p (Name e)) \<Longrightarrow> visible wd root (Join p (Name e)) e"

section \<open>Example inputs\<close>

definition example_tree :: DirEntry where
  "example_tree =
     Dir ''w'' [Dir ''.git'' [File ''config'', File ''hook.py''],
               File ''README'',
               Dir ''src'' [File ''app.py'', Dir ''empty'' []]]"

text \<open>
  A tree in which the directory \<^verbatim>\<open>a\<close> holds no file, only a subdirectory
  named \<^verbatim>\<open>sub.go\<close>.
\<close>

definition subdir_tree :: DirEntry where
  "subdir_tree = Dir ''w'' [Dir ''a'' [Dir ''sub.go'' [File ''notes.txt'']]]"

text \<open>A tree in which the directory \<^verbatim>\<open>a\<close> cannot be read.\<close>

definition locked_tree :: DirEntry where
  "locked_tree =
     Dir ''w'' [Unreadable ''a'' ''permission denied'',
               Dir ''b'' [File ''x.go'']]"

text \<open>
  An environment in which every call succeeds: signals are delivered, the \<open>n\<close>-th
  started process gets the id \<open>101 + n\<close>.
\<close>

definition env_ok :: os where
  "env_ok =
     \<lparr>sys_kill = (\<lambda>target sig. None),
      cmd_Start = (\<lambda>n. Inr (101 + int n)),
      NewWatcher = None,
      term_Open = None,
      Getwd = Inr ''/w'',
      Lstat = Inr example_tree\<rparr>"

text \<open>A \<^verbatim>\<open>Run\<close> whose command is running as process 100.\<close>

definition run_100 :: Run where
  "run_100 =
     \<lparr>args = [''sleep'', ''100''], process = Some 100, restart = [],
      prefix = (''%s[Press F5 to refresh %q] %s'',
                [StrV colorGreen, StrV ''sleep'', StrV colorReset]),
      trace = [], started = 0\<rparr>"

text \<open>A write to \<^verbatim>\<open>main.go\<close>, as the watcher reports it.\<close>

definition write_main_go :: Event where
  "write_main_go = \<lparr>ev_Name = ''main.go'', ev_Op = fsnotify_Write\<rparr>"

section \<open>Auxiliary notions\<close>

text \<open>
  \<open>quiet r r'\<close>: \<open>r'\<close> comes from \<open>r\<close> by effects none of which is a restore of
  the terminal.
\<close>

definition quiet :: "Run \<Rightarrow> Run \<Rightarrow> bool" where
  "quiet r r' = (\<exists>done. trace r' = trace r @ done \<and> TermRestore \<notin> set done)"

text \<open>\<open>restored_once r r'\<close>: exactly one of those effects is a restore.\<close>

definition restored_once :: "Run \<Rightarrow> Run \<Rightarrow> bool" where
  "restored_once r r' =
     (\<exists>done. trace r' = trace r @ done \<and> count_list done TermRestore = 1)"

section \<open>Facts about the helpers\<close>

lemma Contains_no_such_process:
  "Contains (errno_Error e) ''no such process'' = (e = ESRCH)"
  by (cases e) (simp_all add: HasPrefix_def)

lemma supportedExtensionMap_iff:
  "supportedExtensionMap k = (k \<in> set supportedExtensions)"
  by (auto simp: supportedExtensionMap_def init_supportedExtensionMap_def
      supportedExtensions_def split: option.splits if_splits)

lemma trace_emit: "trace (emit e r) = trace r @ [e]"
  by (simp add: emit_def)

lemma trace_printf:
  "trace (printf color format a r) = trace r @ [LoggerPrintf (color @ format @ colorReset) a]"
  by (simp add: printf_def emit_def)

lemma New_args: "New env as = Returned r \<Longrightarrow> args r = as \<and> as \<noteq> []"
  by (auto simp: New_def split: option.splits list.splits)

text \<open>When \<open>ListenForKeys\<close> returns it has restored the terminal itself, once.\<close>

lemma ListenForKeys_restores:
  "ListenForKeys env inputs r = (Exited, r') \<Longrightarrow> \<exists>r1. r' = emit TermRestore r1"
  by (auto simp: ListenForKeys_def split: prod.splits loop_end.splits)

section \<open>kill: the escalation policy\<close>

text \<open>
  Claim C4. With a child recorded, \<open>kill\<close> sends the interrupt to the negated process
  id. When that send fails with "no such process", nothing else happens: no second
  signal, no line logged. When it fails with any other error, the failure is logged,
  exactly one SIGKILL is sent to the same target, and a failure of that second send is
  logged too. In every case the handle is cleared.
\<close>

theorem kill_escalation:
  assumes "process r = Some pid"
  shows "(sys_kill env (- pid) SIGINT = Some ESRCH \<longrightarrow>
            trace (kill env r) = trace r @ [SyscallKill (- pid) SIGINT])
       \<and> (\<forall>e. sys_kill env (- pid) SIGINT = Some e \<and> e \<noteq> ESRCH \<longrightarrow>
            trace (kill env r) =
              trace r @
              [SyscallKill (- pid) SIGINT,
               LoggerPrintf (colorRed @ ''Process %d: cannot interrupt: %v'' @ colorReset)
                 [IntV pid, ErrV (Errno e)],
               LoggerPrintf (colorPurple @ ''Process %d: sending sigkill'' @ colorReset)
                 [IntV pid],
               SyscallKill (- pid) SIGKILL] @
              (case sys_kill env (- pid) SIGKILL of
                 None \<Rightarrow> []
               | Some e' \<Rightarrow>
                   [LoggerPrintf (colorRed @ ''Process %d: cannot be killed: %v'' @ colorReset)
                      [IntV pid, ErrV (Errno e')]]))
       \<and> process (kill env r) = None"
proof (intro conjI allI impI)
  assume "sys_kill env (- pid) SIGINT = Some ESRCH"
  then show "trace (kill env r) = trace r @ [SyscallKill (- pid) SIGINT]"
    using assms by (simp add: kill_def Let_def trace_emit HasPrefix_def)
next
  fix e
  assume e: "sys_kill env (- pid) SIGINT = Some e \<and> e \<noteq> ESRCH"
  then have "\<not> Contains (errno_Error e) ''no such process''"
    by (simp add: Contains_no_such_process)
  then show "trace (kill env r) =
      trace r @
      [SyscallKill (- pid) SIGINT,
       LoggerPrintf (colorRed @ ''Process %d: cannot interrupt: %v'' @ colorReset)
         [IntV pid, ErrV (Errno e)],
       LoggerPrintf (colorPurple @ ''Process %d: sending sigkill'' @ colorReset)
         [IntV pid],
       SyscallKill (- pid) SIGKILL] @
      (case sys_kill env (- pid) SIGKILL of
         None \<Rightarrow> []
       | Some e' \<Rightarrow>
           [LoggerPrintf (colorRed @ ''Process %d: cannot be killed: %v'' @ colorReset)
              [IntV pid, ErrV (Errno e')]])"
    using assms e
    by (simp add: kill_def Let_def trace_emit trace_printf split: option.splits)
next
  show "process (kill env r) = None"
    using assms by (simp add: kill_def Let_def)
qed

text \<open>
  The theorem at process 100: once with the group already gone, once with the
  interrupt refused and the SIGKILL finding no process.
\<close>

theorem kill_escalation_witness:
  "process run_100 = Some 100
   \<and> trace (kill (env_ok\<lparr>sys_kill := (\<lambda>target sig. Some ESRCH)\<rparr>) run_100) =
       [SyscallKill (- 100) SIGINT]
   \<and> trace (kill (env_ok\<lparr>sys_kill := (\<lambda>target sig. if sig = SIGINT then Some EPERM else Some ESRCH)\<rparr>)
              run_100) =
       [SyscallKill (- 100) SIGINT,
        LoggerPrintf (colorRed @ ''Process %d: cannot interrupt: %v'' @ colorReset)
          [IntV 100, ErrV (Errno EPERM)],
        LoggerPrintf (colorPurple @ ''Process %d: sending sigkill'' @ colorReset)
          [IntV 100],
        SyscallKill (- 100) SIGKILL,
        LoggerPrintf (colorRed @ ''Process %d: cannot be killed: %v'' @ colorReset)
          [IntV 100, ErrV (Errno ESRCH)]]"
proof -
  have p: "process run_100 = Some 100"
    by (simp add: run_100_def)
  have a: "trace (kill (env_ok\<lparr>sys_kill := (\<lambda>target sig. Some ESRCH)\<rparr>) run_100) =
             [SyscallKill (- 100) SIGINT]"
    using kill_escalation [OF p, of "env_ok\<lparr>sys_kill := (\<lambda>target sig. Some ESRCH)\<rparr>"]
    by (simp add: run_100_def)
  have b: "trace (kill (env_ok\<lparr>sys_kill := (\<lambda>target sig. if sig = SIGINT then Some EPERM else Some ESRCH)\<rparr>)
              run_100) =
       [SyscallKill (- 100) SIGINT,
        LoggerPrintf (colorRed @ ''Process %d: cannot interrupt: %v'' @ colorReset)
          [IntV 100, ErrV (Errno EPERM)],
        LoggerPrintf (colorPurple @ ''Process %d: sending sigkill'' @ colorReset)
          [IntV 100],
        SyscallKill (- 100) SIGKILL,
        LoggerPrintf (colorRed @ ''Process %d: cannot be killed: %v'' @ colorReset)
          [IntV 100, ErrV (Errno ESRCH)]]"
    using kill_escalation [OF p,
        of "env_ok\<lparr>sys_kill := (\<lambda>target sig. if sig = SIGINT then Some EPERM else Some ESRCH)\<rparr>"]
    by (simp add: run_100_def)
  from p a b show ?thesis by simp
qed

section \<open>What the directory scan returns\<close>

lemma range_files_eq:
  "range_files files s dirs = (None, if lists_supported files then dirs @ [s] else dirs)"
  by (induction files) (auto simp: lists_supported_def supportedExtensionMap_iff)

text \<open>
  Whatever was collected before, a walk with the callback of \<open>watch\<close> appends an
  initial part of the list of the directories that list a supported name, all of it
  when it returns no error; the callback never lets \<^verbatim>\<open>SkipDir\<close> escape from a
  directory.
\<close>

lemma walk_prefix:
  "\<exists>ys rest. snd (walkDir walkFn path d st) = st @ ys
      \<and> Watch_Set lists_supported path d = ys @ rest
      \<and> fst (walkDir walkFn path d st) \<noteq> Some SkipDir
      \<and> (fst (walkDir walkFn path d st) = None \<longrightarrow> rest = [])"
  "\<exists>ys rest. snd (walkEntries walkFn path ds st) = st @ ys
      \<and> concat (map (\<lambda>e. Watch_Set lists_supported (Join path (Name e)) e) ds) = ys @ rest
      \<and> fst (walkEntries walkFn path ds st) \<noteq> Some SkipDir
      \<and> (fst (walkEntries walkFn path ds st) = None \<longrightarrow> rest = [])"
proof (induction walkFn path d st and walkFn path ds st rule: walkDir_walkEntries.induct)
  case (1 path n st)
  then show ?case by (simp add: walkFn_def)
next
  case (2 path n msg st)
  then show ?case by (simp add: walkFn_def hidden_def)
next
  case (3 path n entries st)
  show ?case
  proof (cases "hidden path")
    case True
    then show ?thesis by (simp add: walkFn_def hidden_def)
  next
    case False
    define st1 where "st1 = (if lists_supported entries then st @ [path] else st)"
    have cb: "walkFn path (Some (Dir n entries)) None st = (None, st1)"
      using False by (simp add: walkFn_def hidden_def range_files_eq st1_def)
    from 3[OF cb[symmetric] refl] obtain ys rest where
      "snd (walkEntries walkFn path entries st1) = st1 @ ys"
      "concat (map (\<lambda>e. Watch_Set lists_supported (Join path (Name e)) e) entries) = ys @ rest"
      "fst (walkEntries walkFn path entries st1) \<noteq> Some SkipDir"
      "fst (walkEntries walkFn path entries st1) = None \<longrightarrow> rest = []"
      by auto
    then show ?thesis using False cb
      by (cases "lists_supported entries") (auto simp: st1_def split: prod.splits option.splits)
  qed
next
  case (4 path st)
  then show ?case by simp
next
  case (5 path d1 ds st)
  obtain e1 st1 where w1: "walkDir walkFn (Join path (Name d1)) d1 st = (e1, st1)"
    by (cases "walkDir walkFn (Join path (Name d1)) d1 st")
  from 5(1) w1 obtain ys1 rest1 where
    h1: "st1 = st @ ys1" "Watch_Set lists_supported (Join path (Name d1)) d1 = ys1 @ rest1"
        "e1 \<noteq> Some SkipDir" "e1 = None \<longrightarrow> rest1 = []"
    by auto
  show ?case
  proof (cases e1)
    case None
    from 5(2)[OF w1[symmetric] None] obtain ys2 rest2 where
      h2: "snd (walkEntries walkFn path ds st1) = st1 @ ys2"
          "concat (map (\<lambda>e. Watch_Set lists_supported (Join path (Name e)) e) ds) = ys2 @ rest2"
          "fst (walkEntries walkFn path ds st1) \<noteq> Some SkipDir"
          "fst (walkEntries walkFn path ds st1) = None \<longrightarrow> rest2 = []"
      by auto
    show ?thesis using w1 None h1 h2
      by (auto split: prod.splits)
  next
    case (Some err)
    then show ?thesis using w1 h1
      by (auto split: prod.splits)
  qed
qed

text \<open>The walk returns no error exactly when it meets no directory it cannot read.\<close>

lemma walk_readable:
  "(fst (walkDir walkFn path d st) = None) = readable path d"
  "(fst (walkEntries walkFn path ds st) = None) =
     (\<forall>e \<in> set ds. readable (Join path (Name e)) e)"
proof (induction walkFn path d st and walkFn path ds st rule: walkDir_walkEntries.induct)
  case (1 path n st)
  then show ?case by (simp add: walkFn_def)
next
  case (2 path n msg st)
  then show ?case by (simp add: walkFn_def hidden_def)
next
  case (3 path n entries st)
  show ?case
  proof (cases "hidden path")
    case True
    then show ?thesis by (simp add: walkFn_def hidden_def)
  next
    case False
    define st1 where "st1 = (if lists_supported entries then st @ [path] else st)"
    have cb: "walkFn path (Some (Dir n entries)) None st = (None, st1)"
      using False by (simp add: walkFn_def hidden_def range_files_eq st1_def)
    from 3[OF cb[symmetric] refl] show ?thesis
      using False cb by simp
  qed
next
  case (4 path st)
  then show ?case by simp
next
  case (5 path d1 ds st)
  obtain e1 st1 where w1: "walkDir walkFn (Join path (Name d1)) d1 st = (e1, st1)"
    by (cases "walkDir walkFn (Join path (Name d1)) d1 st")
  have ns: "e1 \<noteq> Some SkipDir"
    using walk_prefix(1)[of "Join path (Name d1)" d1 st] w1 by auto
  from 5(1) w1 have r1: "(e1 = None) = readable (Join path (Name d1)) d1" by simp
  show ?case
  proof (cases e1)
    case None
    from 5(2)[OF w1[symmetric] None] show ?thesis
      using w1 None r1 by simp
  next
    case (Some err)
    then show ?thesis using w1 r1 ns by auto
  qed
qed

lemma visible_not_hidden: "visible wd root p d \<Longrightarrow> \<not> hidden p"
  by (induction rule: visible.induct) auto

lemma Watch_Set_sound:
  "(\<not> hidden path \<Longrightarrow> IsDir d \<Longrightarrow> visible wd root path d) \<Longrightarrow>
   q \<in> set (Watch_Set test path d) \<Longrightarrow>
   \<exists>n files. visible wd root q (Dir n files) \<and> test files"
proof (induction test path d rule: Watch_Set.induct)
  case (3 test path n entries)
  from 3(3) have nh: "\<not> hidden path" by (auto split: if_splits)
  with 3(2) have v: "visible wd root path (Dir n entries)" by simp
  from 3(3) nh consider "q = path" "test entries"
    | e where "e \<in> set entries" "q \<in> set (Watch_Set test (Join path (Name e)) e)"
    by (auto split: if_splits)
  then show ?case
  proof cases
    case 1
    then show ?thesis using v by blast
  next
    case 2
    have "\<not> hidden (Join path (Name e)) \<Longrightarrow> IsDir e \<Longrightarrow> visible wd root (Join path (Name e)) e"
      using v 2(1) by (rule visible.child)
    from 3(1)[OF nh 2(1) this 2(2)] show ?thesis by simp
  qed
qed simp_all

lemma Watch_Set_below:
  "visible wd root p d \<Longrightarrow> set (Watch_Set test p d) \<subseteq> set (Watch_Set test wd root)"
proof (induction rule: visible.induct)
  case root
  then show ?case by simp
next
  case (child p n entries e)
  have "\<not> hidden p" using child(1) by (rule visible_not_hidden)
  then have "set (Watch_Set test (Join p (Name e)) e) \<subseteq> set (Watch_Set test p (Dir n entries))"
    using child(2) by auto
  with child(5) show ?case by blast
qed

lemma Watch_Set_complete:
  assumes "visible wd root p (Dir n files)" "test files"
  shows "p \<in> set (Watch_Set test wd root)"
proof -
  have "\<not> hidden p" using assms(1) by (rule visible_not_hidden)
  then have "p \<in> set (Watch_Set test p (Dir n files))" using assms(2) by simp
  with Watch_Set_below[OF assms(1)] show ?thesis by blast
qed

text \<open>
  The members of the list are the paths of the directories that pass the test and
  have no hidden directory at or above them.
\<close>

lemma set_Watch_Set:
  "set (Watch_Set test wd root) =
     {p. \<exists>n files. visible wd root p (Dir n files) \<and> test files}"
proof (intro set_eqI iffI)
  fix q assume "q \<in> set (Watch_Set test wd root)"
  moreover have "\<not> hidden wd \<Longrightarrow> IsDir root \<Longrightarrow> visible wd root wd root"
    by (rule visible.root)
  ultimately show "q \<in> {p. \<exists>n files. visible wd root p (Dir n files) \<and> test files}"
    using Watch_Set_sound[of wd root wd root q test] by blast
next
  fix q assume "q \<in> {p. \<exists>n files. visible wd root p (Dir n files) \<and> test files}"
  then show "q \<in> set (Watch_Set test wd root)" using Watch_Set_complete by blast
qed

text \<open>The base name of a joined path is the entry's own name.\<close>

lemma path_elems_name: "CHR ''/'' \<notin> set name \<Longrightarrow> path_elems name = [name]"
  by (induction name) (auto simp: IsPathSeparator_def)

lemma path_elems_nonempty: "path_elems p \<noteq> []"
  by (induction p) (auto split: list.splits)

lemma path_elems_append:
  "CHR ''/'' \<notin> set name \<Longrightarrow> path_elems (path @ CHR ''/'' # name) = path_elems path @ [name]"
  by (induction path)
    (auto simp: IsPathSeparator_def path_elems_name path_elems_nonempty split: list.splits)

lemma clean_elems_append:
  "name \<noteq> [] \<Longrightarrow> name \<noteq> ''.'' \<Longrightarrow> name \<noteq> ''..'' \<Longrightarrow>
     clean_elems rooted (es @ [name]) out = clean_elems rooted es out @ [name]"
  by (induction es arbitrary: out) auto

lemma join_elems_snoc:
  "join_elems (xs @ [name]) = (if xs = [] then name else join_elems xs @ CHR ''/'' # name)"
  by (induction xs rule: join_elems.induct) auto

lemma Base_suffix:
  assumes "name \<noteq> []" "CHR ''/'' \<notin> set name" "pre = [] \<or> last pre = CHR ''/''"
  shows "Base (pre @ name) = name"
proof -
  have 1: "dropWhile IsPathSeparator (rev name @ xs) = rev name @ xs" for xs
    using assms by (cases "rev name") (auto simp: IsPathSeparator_def)
  have 2: "takeWhile (\<lambda>c. \<not> IsPathSeparator c) (rev name @ rev pre) = rev name"
  proof (cases pre rule: rev_cases)
    case Nil
    then show ?thesis using assms
      by (auto simp: IsPathSeparator_def takeWhile_eq_all_conv[THEN iffD2])
  next
    case (snoc ys y)
    then have "y = CHR ''/''" using assms by simp
    then show ?thesis using assms snoc
      by (simp add: takeWhile_append IsPathSeparator_def takeWhile_eq_all_conv[THEN iffD2])
  qed
  show ?thesis using assms 1 2
    by (simp add: Base_def Let_def)
qed

lemma Base_Join:
  assumes "valid_name name"
  shows "Base (Join path name) = name"
proof -
  from assms have n: "name \<noteq> []" "name \<noteq> ''.''" "name \<noteq> ''..''" "CHR ''/'' \<notin> set name"
    by (simp_all add: valid_name_def)
  have "\<exists>pre. Join path name = pre @ name \<and> (pre = [] \<or> last pre = CHR ''/'')"
  proof (cases "path = []")
    case True
    have "hd name \<noteq> CHR ''/''" using n by (cases name) auto
    then have "Join path name = name"
      using True n by (simp add: Join_def Clean_def path_elems_name IsPathSeparator_def)
    then show ?thesis by simp
  next
    case False
    define rooted where "rooted = IsPathSeparator (hd path)"
    define S where "S = clean_elems rooted (path_elems path) []"
    have out: "clean_elems rooted (path_elems (path @ CHR ''/'' # name)) [] = S @ [name]"
      using n by (simp add: path_elems_append clean_elems_append S_def)
    have "IsPathSeparator (hd (path @ CHR ''/'' # name)) = rooted"
      using False by (simp add: rooted_def)
    then have "Join path name =
        (if rooted then ''/'' @ join_elems (S @ [name]) else join_elems (S @ [name]))"
      using False out by (cases rooted) (simp_all add: Join_def Clean_def Let_def)
    then show ?thesis
      by (cases "S = []") (auto simp: join_elems_snoc)
  qed
  then show ?thesis using n Base_suffix by metis
qed

lemma hidden_Join:
  "valid_name name \<Longrightarrow> hidden (Join path name) = HasPrefix name ''.''"
  by (simp add: hidden_def Base_Join)

text \<open>
  What the scan does return, for every working directory \<open>wd\<close> and tree \<open>root\<close>:
  an initial part of the pre-order, depth-first list of the directories that list a
  supported name, hidden subtrees left out, and the whole list exactly when the walk
  meets no directory it cannot read. No collected path has a base name that starts with
  a dot.
\<close>

lemma scan_lists_supported:
  "(\<exists>rest. Watch_Set lists_supported wd root = snd (WalkDir walkFn wd (Inr root) []) @ rest)
   \<and> (readable wd root \<longrightarrow>
        WalkDir walkFn wd (Inr root) [] = (None, Watch_Set lists_supported wd root))
   \<and> (fst (WalkDir walkFn wd (Inr root) []) = None) = readable wd root
   \<and> set (Watch_Set lists_supported wd root) =
        {p. \<exists>n files. visible wd root p (Dir n files) \<and> lists_supported files}
   \<and> (\<forall>p \<in> set (snd (WalkDir walkFn wd (Inr root) [])). \<not> HasPrefix (Base p) ''.'')"
proof -
  obtain ys rest where w:
    "snd (walkDir walkFn wd root []) = ys" "Watch_Set lists_supported wd root = ys @ rest"
    "fst (walkDir walkFn wd root []) \<noteq> Some SkipDir"
    "fst (walkDir walkFn wd root []) = None \<longrightarrow> rest = []"
    using walk_prefix(1)[of wd root "[]"] by auto
  have W: "WalkDir walkFn wd (Inr root) [] = walkDir walkFn wd root []"
    using w(3) by (cases "walkDir walkFn wd root []") (simp add: WalkDir_def)
  have R: "(fst (walkDir walkFn wd root []) = None) = readable wd root"
    by (rule walk_readable(1))
  have "\<not> hidden p" if "p \<in> set ys" for p
  proof -
    from that w(2) have "p \<in> set (Watch_Set lists_supported wd root)" by simp
    then show ?thesis unfolding set_Watch_Set using visible_not_hidden by blast
  qed
  moreover have "readable wd root \<Longrightarrow>
      walkDir walkFn wd root [] = (None, Watch_Set lists_supported wd root)"
    using w R by (cases "walkDir walkFn wd root []") auto
  ultimately show ?thesis
    using w W R set_Watch_Set[of lists_supported wd root] by (auto simp: hidden_def)
qed

lemmas path_defs = Join_def Clean_def Base_def Ext_def HasPrefix_def IsPathSeparator_def

lemma WalkDir_example_tree:
  "WalkDir walkFn ''/w'' (Inr example_tree) [] = (None, [''/w/src''])"
  by (simp add: WalkDir_def example_tree_def walkFn_def path_defs
      supportedExtensionMap_iff supportedExtensions_def)

lemma WalkDir_subdir_tree:
  "WalkDir walkFn ''/w'' (Inr subdir_tree) [] = (None, [''/w/a''])"
  by (simp add: WalkDir_def subdir_tree_def walkFn_def path_defs
      supportedExtensionMap_iff supportedExtensions_def)

text \<open>
  Claim C3, on the code. In the tree \<^verbatim>\<open>/w\<close> the directory \<^verbatim>\<open>a\<close> holds no file at
  all, only the subdirectory \<^verbatim>\<open>sub.go\<close>, and that holds only \<^verbatim>\<open>notes.txt\<close>. No
  directory of the tree directly contains a file with an extension of the allow-list,
  so the specified list is empty. The scan returns \<^verbatim>\<open>/w/a\<close>: the callback tests
  the name of every entry of the listing and does not ask whether the entry is a file.
\<close>

theorem scan_counts_subdirectory:
  "WalkDir walkFn ''/w'' (Inr subdir_tree) [] = (None, [''/w/a''])
   \<and> Watch_Set_spec ''/w'' subdir_tree = []
   \<and> \<not> qualifies [Dir ''sub.go'' [File ''notes.txt'']]
   \<and> lists_supported [Dir ''sub.go'' [File ''notes.txt'']]"
  using WalkDir_subdir_tree
  by (simp add: Watch_Set_spec_def subdir_tree_def qualifies_def lists_supported_def hidden_def
      path_defs supportedExtensions_def)

section \<open>New without a command\<close>

text \<open>
  Claim C10 says that \<open>New\<close> with no argument returns no error value and panics. It
  does return an error value when the terminal cannot be opened: the index is reached
  only after both resources were obtained.
\<close>

theorem New_without_command_counterexample:
  "New (env_ok\<lparr>term_Open := Some ''open /dev/tty: no such device or address''\<rparr>) [] =
     Failed (Err ''open /dev/tty: no such device or address'') [WatcherCreated]"
  by (simp add: New_def env_ok_def)

text \<open>
  Claim C10, amended. \<open>New\<close> with an empty argument list never returns a
  \<^verbatim>\<open>Run\<close>, and returns no error for the missing command: with the watcher and the
  terminal obtained it panics on \<^verbatim>\<open>args[0]\<close>, with one of them refused it returns
  that call's error before the index is reached. With any non-empty argument list and
  both obtained it returns a \<^verbatim>\<open>Run\<close>, so a non-empty command is the unchecked
  precondition.
\<close>

theorem New_without_command:
  "(\<forall>r. New env [] \<noteq> Returned r)
   \<and> (NewWatcher env = None \<and> term_Open env = None \<longrightarrow>
        New env [] = Panicked index_out_of_range [WatcherCreated, TermOpened])
   \<and> (\<forall>msg. NewWatcher env = Some msg \<longrightarrow> New env [] = Failed (Err msg) [])
   \<and> (\<forall>msg. NewWatcher env = None \<and> term_Open env = Some msg \<longrightarrow>
        New env [] = Failed (Err msg) [WatcherCreated])
   \<and> (as \<noteq> [] \<and> NewWatcher env = None \<and> term_Open env = None \<longrightarrow>
        (\<exists>r. New env as = Returned r \<and> args r = as \<and> process r = None \<and> restart r = []))"
  by (cases as) (auto simp: New_def split: option.splits)

theorem New_without_command_witness:
  "NewWatcher env_ok = None \<and> term_Open env_ok = None
   \<and> New env_ok [] = Panicked index_out_of_range [WatcherCreated, TermOpened]
   \<and> New (env_ok\<lparr>NewWatcher := Some ''too many open files''\<rparr>) [] =
       Failed (Err ''too many open files'') []
   \<and> (\<exists>r. New env_ok [''sleep'', ''100''] = Returned r \<and> args r = [''sleep'', ''100''])"
proof -
  have ok: "NewWatcher env_ok = None \<and> term_Open env_ok = None"
    by (simp add: env_ok_def)
  have bad: "NewWatcher (env_ok\<lparr>NewWatcher := Some ''too many open files''\<rparr>) = Some ''too many open files''"
    by simp
  show ?thesis
    using ok bad New_without_command [of env_ok "[''sleep'', ''100'']"]
      New_without_command [of "env_ok\<lparr>NewWatcher := Some ''too many open files''\<rparr>" "[]"]
    by auto
qed


section \<open>The consumer loop and cancellation\<close>

lemma consumer_loop_cancel:
  "CtxDone \<notin> set pre \<Longrightarrow>
     snd (consumer_loop env (pre @ CtxDone # rest) r) = snd (consumer_loop env pre r)"
proof (induction pre arbitrary: r)
  case Nil
  then show ?case by simp
next
  case (Cons c pre)
  then show ?case by (cases c) (auto split: list.splits)
qed

lemma process_kill: "process (kill env r) = None"
  by (auto simp: kill_def Let_def split: option.splits)

lemma kill_sends_SIGINT:
  "process r = Some pid \<Longrightarrow> SyscallKill (- pid) SIGINT \<in> set (trace (kill env r))"
  by (auto simp: kill_def Let_def trace_emit trace_printf split: option.splits)

text \<open>
  Claim C7 says that on cancellation the consumer loop exits only after a last request
  that kills the child. With process 100 running and the context cancelled, the loop
  exits, no signal was sent, and process 100 is still the recorded child.
\<close>

theorem consumer_loop_cancelled_counterexample:
  "fst (consumer_loop env_ok [CtxDone] run_100) = Exited
   \<and> process (snd (consumer_loop env_ok [CtxDone] run_100)) = Some 100
   \<and> trace (snd (consumer_loop env_ok [CtxDone] run_100)) = []"
  by (simp add: run_100_def)

text \<open>
  Claim C7, amended. When \<^verbatim>\<open>ctx.Done()\<close> is taken the consumer loop returns at
  once and leaves the \<^verbatim>\<open>Run\<close> as it is: after any restarts, the state at exit is the
  state those restarts left, with no further request, signal or change of the handle.
  The last child is killed by \<open>Close\<close>, which sends the interrupt to its group and
  clears the handle.
\<close>

theorem consumer_loop_cancelled:
  "consumer_loop env (CtxDone # rest) r = (Exited, r)
   \<and> (CtxDone \<notin> set pre \<longrightarrow>
        snd (consumer_loop env (pre @ CtxDone # rest) r) = snd (consumer_loop env pre r))
   \<and> process (Close env r) = None
   \<and> (\<forall>pid. process r = Some pid \<longrightarrow> SyscallKill (- pid) SIGINT \<in> set (trace (Close env r)))"
  using consumer_loop_cancel[of pre env rest r]
  by (auto simp: Close_def process_kill emit_def intro!: kill_sends_SIGINT)


theorem consumer_loop_cancelled_witness:
  "CtxDone \<notin> set [RestartRecv]
   \<and> snd (consumer_loop env_ok [RestartRecv, CtxDone] (run_100\<lparr>restart := [True]\<rparr>)) =
       snd (consumer_loop env_ok [RestartRecv] (run_100\<lparr>restart := [True]\<rparr>))
   \<and> process run_100 = Some 100
   \<and> SyscallKill (- 100) SIGINT \<in> set (trace (Close env_ok run_100))"
proof -
  have a: "CtxDone \<notin> set [RestartRecv]" by simp
  have b: "process run_100 = Some 100" by (simp add: run_100_def)
  show ?thesis
    using a b consumer_loop_cancelled [of env_ok "[]" "run_100\<lparr>restart := [True]\<rparr>" "[RestartRecv]"]
      consumer_loop_cancelled [of env_ok "[]" run_100 "[]"]
    by auto
qed


section \<open>Requesting a restart\<close>

lemma restart_printf: "restart (printf c f a r) = restart r"
  by (simp add: printf_def emit_def)

lemma write_main_go_qualifies:
  "ev_Op write_main_go AND fsnotify_Write = fsnotify_Write"
  "supportedExtensionMap (Ext (ev_Name write_main_go))"
  by (simp_all add: write_main_go_def supportedExtensionMap_iff Ext_def IsPathSeparator_def
      supportedExtensions_def)

lemma restart_emit: "restart (emit e r) = restart r"
  by (simp add: emit_def)

lemma restart_usagef: "restart (usagef c f a r) = restart r"
  by (simp add: usagef_def emit_def)

lemma restart_add_dirs: "restart (add_dirs i ds r) = restart r"
  by (induction ds arbitrary: i r) (simp_all add: restart_emit restart_usagef)

lemma restart_watch: "restart (snd (watch env r)) = restart r"
  by (auto simp: watch_def Let_def restart_emit restart_add_dirs restart_usagef split: sum.splits)

lemma restart_kill: "restart (kill env r) = restart r"
  by (auto simp: kill_def Let_def restart_emit restart_printf split: option.splits)

lemma restart_Restart: "restart (Restart env r) = restart r"
  by (auto simp: Restart_def Let_def restart_emit restart_printf restart_kill split: sum.splits)

lemma fst_watch:
  "fst (watch env r) = (case Getwd env of Inl msg \<Rightarrow> Some (Err msg) | Inr wd \<Rightarrow> None)"
  by (simp add: watch_def Let_def split: sum.splits)

text \<open>
  What \<open>Start\<close> returns in terms of the state \<open>watch\<close> left and the turns of the
  consumer loop.
\<close>

lemma Start_eq:
  "\<exists>r4. restart r4 = restart r \<and>
     Start env cs r =
       (case chan_send (snd (consumer_loop env cs r4)) of
          None \<Rightarrow> None
        | Some r5 \<Rightarrow> Some (fst (watch env r), r5))"
proof -
  define r3 where "r3 = emit (Go ConsumerLoop)
     (usagef colorWhite
        ''To restart the running program, press F5 or SPACE or Ctrl-R, or just make file changes.''
        [] (emit (FmtPrintf ''%s%s\<newline>'' [StrV colorGreen, StrV separator]) r))"
  obtain err r4 where w: "watch env r3 = (err, r4)"
    by (cases "watch env r3")
  have "restart r4 = restart r"
    using restart_watch[of env r3] w by (simp add: r3_def restart_emit restart_usagef)
  moreover have "err = fst (watch env r)"
    using w fst_watch[of env r3] fst_watch[of env r] by simp
  ultimately show ?thesis
    using w by (auto simp: Start_def Let_def r3_def)
qed

text \<open>With an empty queue the consumer loop has nothing to receive while \<open>Start\<close> runs.\<close>

lemma consumer_loop_idle:
  "restart r = [] \<Longrightarrow> CtxDone \<notin> set cs \<Longrightarrow> snd (consumer_loop env cs r) = r"
  by (cases "(env, cs, r)" rule: consumer_loop.cases) auto

lemma Start_consumer_idle:
  assumes "restart r = []" "CtxDone \<notin> set cs"
  shows "Start env cs r = Start env [] r"
proof -
  define r3 where "r3 = emit (Go ConsumerLoop)
     (usagef colorWhite
        ''To restart the running program, press F5 or SPACE or Ctrl-R, or just make file changes.''
        [] (emit (FmtPrintf ''%s%s\<newline>'' [StrV colorGreen, StrV separator]) r))"
  obtain err r4 where w: "watch env r3 = (err, r4)"
    by (cases "watch env r3")
  have "restart r4 = []"
    using restart_watch[of env r3] w assms(1) by (simp add: r3_def restart_emit restart_usagef)
  then have "snd (consumer_loop env cs r4) = r4"
    using assms(2) by (rule consumer_loop_idle)
  then show ?thesis
    using w by (simp add: Start_def Let_def r3_def)
qed

text \<open>
  With a full queue the deferred send of \<open>Start\<close> completes once the consumer loop
  has received one signal: the queue is full again, the oldest signal taken and the new
  one added.
\<close>

lemma Start_after_receive:
  assumes "length (restart r) = 100"
  shows "\<exists>r'. Start env [RestartRecv] r = Some (fst (watch env r), r')
            \<and> restart r' = tl (restart r) @ [True]"
proof -
  obtain r4 where r4: "restart r4 = restart r"
    and S: "Start env [RestartRecv] r =
       (case chan_send (snd (consumer_loop env [RestartRecv] r4)) of
          None \<Rightarrow> None
        | Some r5 \<Rightarrow> Some (fst (watch env r), r5))"
    using Start_eq[where r = r and env = env and cs = "[RestartRecv]"] by blast
  obtain v queued where q: "restart r = v # queued"
    using assms by (cases "restart r") auto
  define r' where "r' = Restart env (r4\<lparr>restart := queued\<rparr>)"
  have c: "snd (consumer_loop env [RestartRecv] r4) = r'"
    using r4 q by (simp add: r'_def)
  have l: "restart r' = queued" "length queued = 99"
    using assms q by (simp_all add: r'_def restart_Restart)
  then have "chan_send r' = Some (r'\<lparr>restart := queued @ [True]\<rparr>)"
    by (simp add: chan_send_def restart_cap_def)
  then show ?thesis
    using S c q by simp
qed

lemma chan_send_full: "100 \<le> length (restart r) \<Longrightarrow> chan_send r = None"
  by (simp add: chan_send_def restart_cap_def)

lemma watch_loop_blocked:
  assumes "100 \<le> length (restart r)"
    and "ev_Op ev AND fsnotify_Write = fsnotify_Write"
    and "supportedExtensionMap (Ext (ev_Name ev))"
  shows "watch_loop (EventsRecv (Some ev) # rest) r =
           (Blocked, printf colorGreen ''Modified file: %s'' [StrV (ev_Name ev)] r)"
proof -
  have "chan_send (printf colorGreen ''Modified file: %s'' [StrV (ev_Name ev)] r) = None"
    using assms(1) by (intro chan_send_full) (simp add: restart_printf)
  then show ?thesis
    by (simp only: watch_loop.simps assms(2,3) simp_thms if_False if_True option.case)
qed

text \<open>
  Claim C8 says that a push never blocks the producer and is dropped when the queue is
  saturated. With 100 signals queued the send blocks, and the watch loop that reports a
  write stays blocked in it: the second event is not looked at.
\<close>

theorem request_restart_counterexample:
  "chan_send (run_100\<lparr>restart := replicate 100 True\<rparr>) = None
   \<and> watch_loop [EventsRecv (Some write_main_go), EventsRecv (Some write_main_go)]
        (run_100\<lparr>restart := replicate 100 True\<rparr>) =
       (Blocked, printf colorGreen ''Modified file: %s'' [StrV ''main.go'']
                   (run_100\<lparr>restart := replicate 100 True\<rparr>))"
proof -
  have n: "ev_Name write_main_go = ''main.go''"
    by (simp add: write_main_go_def)
  have 1: "chan_send (run_100\<lparr>restart := replicate 100 True\<rparr>) = None"
    by (rule chan_send_full) simp
  have 2: "watch_loop [EventsRecv (Some write_main_go), EventsRecv (Some write_main_go)]
        (run_100\<lparr>restart := replicate 100 True\<rparr>) =
       (Blocked, printf colorGreen ''Modified file: %s'' [StrV (ev_Name write_main_go)]
                   (run_100\<lparr>restart := replicate 100 True\<rparr>))"
    by (rule watch_loop_blocked) (simp_all add: write_main_go_qualifies)
  from 1 2 show ?thesis by (simp only: n simp_thms)
qed

text \<open>
  A watch loop blocked in its send stays blocked while the queue is full and completes
  the send once the consumer loop has received a signal.
\<close>

lemma blocked_watch_resumes:
  assumes "length (restart (run s)) = 100" "watch_at s = Blocked"
  shows "watch_turn c s = s"
    and "watch_at (watch_turn c (take_turn env ConsumerTurn s)) = Waiting"
    and "restart (run (watch_turn c (take_turn env ConsumerTurn s))) =
           tl (restart (run s)) @ [True]"
proof -
  show "watch_turn c s = s"
    using assms by (simp add: watch_turn_def chan_send_def restart_cap_def)
  obtain v queued where q: "restart (run s) = v # queued"
    using assms(1) by (cases "restart (run s)") auto
  define r' where "r' = Restart env ((run s)\<lparr>restart := queued\<rparr>)"
  have t: "take_turn env ConsumerTurn s = s\<lparr>run := r'\<rparr>"
    using q by (simp add: r'_def)
  have l: "restart r' = queued" "length queued = 99"
    using assms(1) q by (simp_all add: r'_def restart_Restart)
  then have c: "chan_send r' = Some (r'\<lparr>restart := queued @ [True]\<rparr>)"
    by (simp add: chan_send_def restart_cap_def)
  show "watch_at (watch_turn c (take_turn env ConsumerTurn s)) = Waiting"
    unfolding t using assms(2) c by (simp add: watch_turn_def)
  show "restart (run (watch_turn c (take_turn env ConsumerTurn s))) =
          tl (restart (run s)) @ [True]"
    unfolding t using assms(2) c q by (simp add: watch_turn_def)
qed

text \<open>
  Claim C8, amended. A push (\<^verbatim>\<open>r.restart <- true\<close>) enqueues the signal when the
  queue holds fewer than 100. When it holds 100 the send blocks the producer until the
  consumer loop has received a signal, and then completes. The watch loop, having
  logged the modified file, stops in its send with the queue unchanged; it stays there
  while the queue is full and goes on after a turn of the consumer loop. The deferred
  send of \<open>Start\<close>, which has started the consumer loop before, completes after that
  loop has received one signal. In both cases the queue then holds what it held without
  the signal received, and the new signal at the end. No signal is dropped.
\<close>

theorem request_restart:
  "(length (restart r) < 100 \<longrightarrow> chan_send r = Some (r\<lparr>restart := restart r @ [True]\<rparr>))
   \<and> (100 \<le> length (restart r) \<longrightarrow>
        chan_send r = None
        \<and> (ev_Op ev AND fsnotify_Write = fsnotify_Write \<and> supportedExtensionMap (Ext (ev_Name ev)) \<longrightarrow>
             watch_loop (EventsRecv (Some ev) # rest) r =
               (Blocked, printf colorGreen ''Modified file: %s'' [StrV (ev_Name ev)] r)))
   \<and> (length (restart r) = 100 \<longrightarrow>
        (\<exists>r'. Start env [RestartRecv] r = Some (fst (watch env r), r')
              \<and> restart r' = tl (restart r) @ [True]))
   \<and> (length (restart (run s)) = 100 \<and> watch_at s = Blocked \<longrightarrow>
        watch_turn c s = s
        \<and> watch_at (watch_turn c (take_turn env ConsumerTurn s)) = Waiting
        \<and> restart (run (watch_turn c (take_turn env ConsumerTurn s))) =
            tl (restart (run s)) @ [True])"
proof (intro conjI impI)
  assume "length (restart r) < 100"
  then show "chan_send r = Some (r\<lparr>restart := restart r @ [True]\<rparr>)"
    by (simp add: chan_send_def restart_cap_def)
next
  assume "100 \<le> length (restart r)"
  then show "chan_send r = None" by (rule chan_send_full)
next
  assume "100 \<le> length (restart r)"
    and "ev_Op ev AND fsnotify_Write = fsnotify_Write \<and> supportedExtensionMap (Ext (ev_Name ev))"
  then show "watch_loop (EventsRecv (Some ev) # rest) r =
      (Blocked, printf colorGreen ''Modified file: %s'' [StrV (ev_Name ev)] r)"
    by (intro watch_loop_blocked) simp_all
next
  assume "length (restart r) = 100"
  then show "\<exists>r'. Start env [RestartRecv] r = Some (fst (watch env r), r')
              \<and> restart r' = tl (restart r) @ [True]"
    by (rule Start_after_receive)
next
  assume a: "length (restart (run s)) = 100 \<and> watch_at s = Blocked"
  then show "watch_turn c s = s"
    using blocked_watch_resumes(1)[of s c] by blast
  from a show "watch_at (watch_turn c (take_turn env ConsumerTurn s)) = Waiting"
    using blocked_watch_resumes(2)[of s c env] by blast
  from a show "restart (run (watch_turn c (take_turn env ConsumerTurn s))) =
      tl (restart (run s)) @ [True]"
    using blocked_watch_resumes(3)[of s c env] by blast
qed

text \<open>
  The theorem at an empty queue and at a queue of 100, with the watch loop blocked on
  the write to \<^verbatim>\<open>main.go\<close>.
\<close>

theorem request_restart_witness:
  "length (restart run_100) < 100
   \<and> chan_send run_100 = Some (run_100\<lparr>restart := [True]\<rparr>)
   \<and> length (restart (run_100\<lparr>restart := replicate 100 True\<rparr>)) = 100
   \<and> chan_send (run_100\<lparr>restart := replicate 100 True\<rparr>) = None
   \<and> ev_Op write_main_go AND fsnotify_Write = fsnotify_Write
   \<and> supportedExtensionMap (Ext (ev_Name write_main_go))
   \<and> fst (watch_loop [EventsRecv (Some write_main_go)] (run_100\<lparr>restart := replicate 100 True\<rparr>)) = Blocked
   \<and> (\<exists>r'. Start env_ok [RestartRecv] (run_100\<lparr>restart := replicate 100 True\<rparr>) = Some (None, r')
          \<and> length (restart r') = 100)
   \<and> watch_at (watch_turn (EventsRecv None)
        (take_turn env_ok ConsumerTurn
           \<lparr>run = run_100\<lparr>restart := replicate 100 True\<rparr>, watch_at = Blocked,
            keys_begun = False, panicked = None\<rparr>)) = Waiting"
proof -
  let ?R = "run_100\<lparr>restart := replicate 100 True\<rparr>"
  let ?s = "\<lparr>run = ?R, watch_at = Blocked, keys_begun = False, panicked = None\<rparr>"
  have a: "length (restart run_100) < 100" "restart run_100 = []"
    by (simp_all add: run_100_def)
  have b: "length (restart ?R) = 100" "100 \<le> length (restart ?R)"
    by simp_all
  have d: "length (restart (run ?s)) = 100 \<and> watch_at ?s = Blocked"
    by simp
  have g: "fst (watch env_ok ?R) = None"
    by (simp add: fst_watch env_ok_def)
  note t1 = request_restart [where r = run_100 and ev = write_main_go and rest = "[]"
      and env = env_ok and s = ?s and c = "EventsRecv None"]
  note t2 = request_restart [where r = ?R and ev = write_main_go and rest = "[]"
      and env = env_ok and s = ?s and c = "EventsRecv None"]
  from t1 a have 1: "chan_send run_100 = Some (run_100\<lparr>restart := [True]\<rparr>)"
    by simp
  from t2 b have 2: "chan_send ?R = None"
    by blast
  from t2 b write_main_go_qualifies
  have 3: "watch_loop [EventsRecv (Some write_main_go)] ?R =
      (Blocked, printf colorGreen ''Modified file: %s'' [StrV (ev_Name write_main_go)] ?R)"
    by blast
  from t2 b(1) obtain r' where
    "Start env_ok [RestartRecv] ?R = Some (fst (watch env_ok ?R), r')"
    "restart r' = tl (restart ?R) @ [True]"
    by blast
  then have 4: "\<exists>r'. Start env_ok [RestartRecv] ?R = Some (None, r') \<and> length (restart r') = 100"
    using g by simp
  from t2 d have 5: "watch_at (watch_turn (EventsRecv None) (take_turn env_ok ConsumerTurn ?s)) = Waiting"
    by blast
  show ?thesis
    using a(1) b(1) 1 2 3 4 5 write_main_go_qualifies by (simp only: fst_conv simp_thms)
qed

section \<open>Restoring the terminal\<close>

lemma quiet_refl: "quiet r r"
  by (simp add: quiet_def)

lemma quiet_trans: "quiet r r' \<Longrightarrow> quiet r' r'' \<Longrightarrow> quiet r r''"
  by (auto simp: quiet_def)

lemma quiet_emit: "e \<noteq> TermRestore \<Longrightarrow> quiet r (emit e r)"
  by (simp add: quiet_def emit_def)

lemma quiet_printf: "quiet r (printf c f a r)"
  by (simp add: printf_def quiet_emit)

lemma quiet_usagef: "quiet r (usagef c f a r)"
  by (simp add: usagef_def quiet_emit)

lemma quiet_fields: "trace r' = trace r \<Longrightarrow> quiet r r'"
  by (simp add: quiet_def)

lemma quiet_kill: "quiet r (kill env r)"
  by (auto simp: kill_def Let_def quiet_def trace_emit trace_printf split: option.splits)

lemma quiet_Restart: "quiet r (Restart env r)"
proof -
  have "quiet (kill env r) (Restart env r)"
    by (auto simp: Restart_def Let_def quiet_def trace_emit trace_printf emit_def split: sum.splits)
  with quiet_kill show ?thesis by (rule quiet_trans)
qed

lemma quiet_consumer_loop: "quiet r (snd (consumer_loop env cs r))"
proof (induction cs arbitrary: r)
  case Nil
  show ?case by (simp add: quiet_refl)
next
  case (Cons c cs)
  show ?case
  proof (cases c)
    case CtxDone
    then show ?thesis by (simp add: quiet_refl)
  next
    case RestartRecv
    show ?thesis
    proof (cases "restart r")
      case Nil
      then show ?thesis using RestartRecv by (simp add: quiet_refl)
    next
      case (Cons v queued)
      have "quiet r (r\<lparr>restart := queued\<rparr>)" by (simp add: quiet_fields)
      then have "quiet r (Restart env (r\<lparr>restart := queued\<rparr>))"
        using quiet_Restart by (rule quiet_trans)
      then show ?thesis
        using RestartRecv Cons Cons.IH quiet_trans by simp
    qed
  qed
qed

lemma quiet_on_key: "quiet r (on_key env k r)"
  by (simp add: on_key_def quiet_Restart quiet_refl)

lemma quiet_keys_loop: "quiet r (snd (keys_loop env ks r))"
proof (induction ks arbitrary: r)
  case Nil
  show ?case by (simp add: quiet_refl)
next
  case (Cons k ks)
  show ?case
  proof (cases k)
    case CtxErr
    then show ?thesis by (simp add: quiet_refl)
  next
    case (KeyRead key)
    have "quiet r (snd (keys_loop env ks (on_key env key r)))"
      using quiet_on_key Cons.IH by (rule quiet_trans)
    then show ?thesis using KeyRead by simp
  next
    case (ReadFails msg)
    then show ?thesis by (simp add: quiet_refl)
  qed
qed

lemma quiet_chan_send: "chan_send r = Some r' \<Longrightarrow> quiet r r'"
  by (auto simp: chan_send_def quiet_def split: if_splits)

lemma quiet_watch_loop: "quiet r (snd (watch_loop cs r))"
proof (induction cs r rule: watch_loop.induct)
  case (4 event rest r)
  show ?case
  proof (cases "ev_Op event AND fsnotify_Write \<noteq> fsnotify_Write")
    case True
    then show ?thesis using 4(1) by simp
  next
    case w: False
    show ?thesis
    proof (cases "supportedExtensionMap (Ext (ev_Name event))")
      case False
      then show ?thesis using w 4(2) by simp
    next
      case True
      let ?r1 = "printf colorGreen ''Modified file: %s'' [StrV (ev_Name event)] r"
      show ?thesis
      proof (cases "chan_send ?r1")
        case None
        then show ?thesis using w True by (simp add: quiet_printf)
      next
        case (Some r2)
        have "quiet r ?r1" by (rule quiet_printf)
        moreover have "quiet ?r1 r2" using Some by (rule quiet_chan_send)
        moreover have "quiet r2 (snd (watch_loop rest r2))"
          using 4(3) w True Some by simp
        ultimately have "quiet r (snd (watch_loop rest r2))"
          using quiet_trans by blast
        then show ?thesis using w True Some by simp
      qed
    qed
  qed
next
  case (6 err rest r)
  have "quiet r (printf colorRed ''Error:'' [ErrV err] r)" by (rule quiet_printf)
  with 6 show ?case using quiet_trans by simp
qed (auto simp: quiet_refl quiet_emit intro: quiet_trans[OF quiet_printf quiet_emit])


lemma quiet_watch_turn: "quiet (run s) (run (watch_turn c s))"
proof (cases "watch_at s")
  case Exited
  then show ?thesis by (simp add: watch_turn_def quiet_refl)
next
  case Waiting
  then show ?thesis
    using quiet_watch_loop[of "run s" "[c]"]
    by (simp add: watch_turn_def split_beta del: watch_loop.simps)
next
  case Blocked
  then show ?thesis
    by (auto simp: watch_turn_def quiet_refl quiet_chan_send split: option.splits)
next
  case (Panicking msg)
  then show ?thesis by (simp add: watch_turn_def quiet_refl)
qed

lemma panicked_watch_turn: "panicked (watch_turn c s) = panicked s"
  by (auto simp: watch_turn_def split: loop_end.splits option.splits prod.splits)

lemma quiet_restored_once: "quiet r r' \<Longrightarrow> restored_once r' r'' \<Longrightarrow> restored_once r r''"
  by (auto simp: quiet_def restored_once_def count_list_0_iff[THEN iffD2])

text \<open>
  A turn of the key listener either goes on without a restore, or panics on the nil
  value of a failed read and restores the terminal once on the way out.
\<close>

lemma key_turn_cases:
  "(panicked (key_turn env c s) = panicked s \<and> quiet (run s) (run (key_turn env c s)))
   \<or> (panicked (key_turn env c s) = Some nil_dereference
       \<and> restored_once (run s) (run (key_turn env c s)))"
proof -
  define r0 where "r0 = (if keys_begun s then run s else emit TermSetCbreak (run s))"
  have q0: "quiet (run s) r0"
    by (simp add: r0_def quiet_refl quiet_emit)
  show ?thesis
  proof (cases c)
    case CtxErr
    then show ?thesis using q0 by (simp add: key_turn_def r0_def[symmetric])
  next
    case (KeyRead k)
    have "quiet (run s) (on_key env k r0)"
      using q0 quiet_on_key by (rule quiet_trans)
    then show ?thesis using KeyRead by (simp add: key_turn_def r0_def[symmetric])
  next
    case (ReadFails msg)
    have "restored_once r0 (emit TermRestore r0)"
      by (simp add: restored_once_def emit_def)
    with q0 have "restored_once (run s) (emit TermRestore r0)"
      by (rule quiet_restored_once)
    then show ?thesis using ReadFails by (simp add: key_turn_def r0_def[symmetric])
  qed
qed

lemma take_turn_cases:
  "(panicked (take_turn env t s) = panicked s \<and> quiet (run s) (run (take_turn env t s)))
   \<or> (panicked (take_turn env t s) = Some nil_dereference
       \<and> restored_once (run s) (run (take_turn env t s)))"
proof (cases t)
  case ConsumerTurn
  then show ?thesis by (simp add: quiet_consumer_loop del: consumer_loop.simps)
next
  case (KeyTurn k)
  then show ?thesis using key_turn_cases[of env "KeyRead k" s] by simp
next
  case (KeyReadFails msg)
  then show ?thesis using key_turn_cases[of env "ReadFails msg" s] by simp
qed (simp_all add: quiet_watch_turn panicked_watch_turn)

text \<open>
  While \<open>main\<close> waits: either no goroutine has panicked and none has restored the
  terminal, or the key listener has panicked and restored it once.
\<close>

lemma take_turns_cases:
  assumes "panicked s = None"
  shows "(panicked (take_turns env ts s) = None \<and> quiet (run s) (run (take_turns env ts s)))
   \<or> (panicked (take_turns env ts s) = Some nil_dereference
       \<and> restored_once (run s) (run (take_turns env ts s)))"
  using assms
proof (induction ts arbitrary: s)
  case Nil
  then show ?case by (simp add: quiet_refl)
next
  case (Cons t ts)
  let ?s1 = "take_turn env t s"
  have step: "take_turns env (t # ts) s = take_turns env ts ?s1"
    using Cons.prems by simp
  from take_turn_cases[of env t s] show ?case
  proof
    assume a: "panicked ?s1 = panicked s \<and> quiet (run s) (run ?s1)"
    then have "panicked ?s1 = None" using Cons.prems by simp
    from Cons.IH[OF this] a show ?thesis
      unfolding step using quiet_trans quiet_restored_once by blast
  next
    assume a: "panicked ?s1 = Some nil_dereference \<and> restored_once (run s) (run ?s1)"
    then have "take_turns env ts ?s1 = ?s1"
      by (cases ts) simp_all
    with a show ?thesis unfolding step by simp
  qed
qed

lemma take_turns_no_failed_read:
  "panicked s = None \<Longrightarrow> (\<forall>msg. KeyReadFails msg \<notin> set ts) \<Longrightarrow>
     panicked (take_turns env ts s) = None"
proof (induction ts arbitrary: s)
  case Nil
  then show ?case by simp
next
  case (Cons t ts)
  have "panicked (take_turn env t s) = None"
    using Cons.prems
    by (cases t) (auto simp: panicked_watch_turn key_turn_def split: prod.splits loop_end.splits)
  then show ?case using Cons by simp
qed

lemma quiet_add_dirs: "quiet r (add_dirs i ds r)"
proof (induction ds arbitrary: i r)
  case Nil
  show ?case by (simp add: quiet_refl)
next
  case (Cons d ds)
  have "quiet r (emit (WatcherAdd d) (usagef colorWhite ''%3d. %s'' [IntV (int i + 1), StrV d] r))"
    by (rule quiet_trans[OF quiet_usagef quiet_emit]) simp
  then have "quiet r (add_dirs (Suc i) ds
      (emit (WatcherAdd d) (usagef colorWhite ''%3d. %s'' [IntV (int i + 1), StrV d] r)))"
    using Cons.IH by (rule quiet_trans)
  then show ?case by simp
qed

lemma quiet_watch: "quiet r (snd (watch env r))"
proof (cases "Getwd env")
  case (Inl msg)
  then show ?thesis by (simp add: watch_def quiet_refl)
next
  case (Inr wd)
  have "quiet r (usagef colorWhite ''The following directories are being monitored'' [] r)"
    by (rule quiet_usagef)
  then have "quiet r (add_dirs 0 (snd (WalkDir walkFn wd (Lstat env) []))
      (usagef colorWhite ''The following directories are being monitored'' [] r))"
    using quiet_add_dirs by (rule quiet_trans)
  then have "quiet r (emit (Go WatchLoop) (add_dirs 0 (snd (WalkDir walkFn wd (Lstat env) []))
      (usagef colorWhite ''The following directories are being monitored'' [] r)))"
    by (rule quiet_trans) (simp add: quiet_emit)
  then show ?thesis using Inr by (simp add: watch_def Let_def)
qed

lemma quiet_Start:
  assumes "Start env cs r = Some (err, r')"
  shows "quiet r r'"
proof -
  define r3 where "r3 = emit (Go ConsumerLoop)
     (usagef colorWhite
        ''To restart the running program, press F5 or SPACE or Ctrl-R, or just make file changes.''
        [] (emit (FmtPrintf ''%s%s\<newline>'' [StrV colorGreen, StrV separator]) r))"
  have 1: "quiet r r3"
    unfolding r3_def
    by (intro quiet_trans[OF quiet_emit quiet_trans[OF quiet_usagef quiet_emit]]) simp_all
  obtain e r4 where w: "watch env r3 = (e, r4)"
    by (cases "watch env r3")
  have 2: "quiet r3 r4" using quiet_watch[of r3 env] w by simp
  have 3: "quiet r4 (snd (consumer_loop env cs r4))" by (rule quiet_consumer_loop)
  from assms w have "chan_send (snd (consumer_loop env cs r4)) = Some r'"
    by (auto simp: Start_def Let_def r3_def split: option.splits)
  then have "quiet (snd (consumer_loop env cs r4)) r'" by (rule quiet_chan_send)
  with 1 2 3 show ?thesis using quiet_trans by blast
qed

lemma quiet_Close:
  "\<exists>done. trace (Close env r) = trace r @ TermRestore # done \<and> TermRestore \<notin> set done"
proof -
  have "quiet (emit WatcherClose (emit TermRestore r)) (Close env r)"
    unfolding Close_def by (rule quiet_kill)
  then show ?thesis by (auto simp: quiet_def trace_emit)
qed

lemma Start_returns:
  assumes "restart r = []"
  shows "\<exists>r'. Start env [] r = Some (fst (watch env r), r')"
proof -
  obtain r4 where "restart r4 = restart r"
    and S: "Start env [] r =
       (case chan_send (snd (consumer_loop env [] r4)) of
          None \<Rightarrow> None
        | Some r5 \<Rightarrow> Some (fst (watch env r), r5))"
    using Start_eq[where r = r and env = env and cs = "[]"] by blast
  then have "chan_send r4 = Some (r4\<lparr>restart := [True]\<rparr>)"
    using assms by (simp add: chan_send_def restart_cap_def)
  then show ?thesis using S by simp
qed

text \<open>How \<open>main\<close> goes on once \<open>New\<close> has returned.\<close>

lemma main_started:
  assumes "NewWatcher env = None" "term_Open env = None" "as \<noteq> []"
  shows "\<exists>r1. main env as sched =
           (case Getwd env of
              Inl msg \<Rightarrow> (Fatalf ''cannot run: %v'' (Err msg), trace r1)
            | Inr wd \<Rightarrow>
                (let s = take_turns env sched
                           \<lparr>run = emit (Go KeyLoop) r1, watch_at = Waiting,
                            keys_begun = False, panicked = None\<rparr>
                 in case panicked s of
                      Some msg \<Rightarrow> (Panic msg, trace (run s))
                    | None \<Rightarrow> (Return, trace (Close env (run s)))))"
proof -
  obtain r where n: "New env as = Returned r" "restart r = []"
    using assms by (cases as) (auto simp: New_def)
  then obtain r' where "Start env [] r = Some (fst (watch env r), r')"
    using Start_returns[of r env] by auto
  then show ?thesis
    using n by (auto simp: main_def fst_watch Let_def split: sum.splits)
qed

lemma fst_main_started:
  assumes "NewWatcher env = None" "term_Open env = None" "as \<noteq> []"
    and "\<forall>msg. KeyReadFails msg \<notin> set sched"
  shows "fst (main env as sched) =
           (case Getwd env of Inl msg \<Rightarrow> Fatalf ''cannot run: %v'' (Err msg) | Inr wd \<Rightarrow> Return)"
proof -
  obtain r1 where m: "main env as sched =
           (case Getwd env of
              Inl msg \<Rightarrow> (Fatalf ''cannot run: %v'' (Err msg), trace r1)
            | Inr wd \<Rightarrow>
                (let s = take_turns env sched
                           \<lparr>run = emit (Go KeyLoop) r1, watch_at = Waiting,
                            keys_begun = False, panicked = None\<rparr>
                 in case panicked s of
                      Some msg \<Rightarrow> (Panic msg, trace (run s))
                    | None \<Rightarrow> (Return, trace (Close env (run s)))))"
    using main_started[OF assms(1-3)] by blast
  have "panicked (take_turns env sched
      \<lparr>run = emit (Go KeyLoop) r1, watch_at = Waiting, keys_begun = False, panicked = None\<rparr>) = None"
    using assms(4) by (intro take_turns_no_failed_read) simp_all
  then show ?thesis using m by (simp add: Let_def split: sum.splits)
qed

lemma fst_main_failed_read:
  assumes "NewWatcher env = None" "term_Open env = None" "as \<noteq> []" "Getwd env = Inr wd"
  shows "fst (main env as (KeyReadFails msg # sched)) = Panic nil_dereference"
proof -
  obtain r1 where m: "main env as (KeyReadFails msg # sched) =
           (case Getwd env of
              Inl msg \<Rightarrow> (Fatalf ''cannot run: %v'' (Err msg), trace r1)
            | Inr wd \<Rightarrow>
                (let s = take_turns env (KeyReadFails msg # sched)
                           \<lparr>run = emit (Go KeyLoop) r1, watch_at = Waiting,
                            keys_begun = False, panicked = None\<rparr>
                 in case panicked s of
                      Some msg \<Rightarrow> (Panic msg, trace (run s))
                    | None \<Rightarrow> (Return, trace (Close env (run s)))))"
    using main_started[OF assms(1-3)] by blast
  have "panicked (take_turns env (KeyReadFails msg # sched)
      \<lparr>run = emit (Go KeyLoop) r1, watch_at = Waiting, keys_begun = False, panicked = None\<rparr>) =
      Some nil_dereference"
    by (cases sched) (simp_all add: key_turn_def)
  then show ?thesis using m assms(4) by (simp add: Let_def)
qed

lemma panic_texts: "index_out_of_range \<noteq> nil_dereference"
  by (simp add: index_out_of_range_def nil_dereference_def)

text \<open>
  Claim C9 says the terminal is restored exactly once on every exit path once it has
  been opened. When \<^verbatim>\<open>os.Getwd\<close> fails, \<open>Start\<close> returns the error and
  \<open>main\<close> ends in \<^verbatim>\<open>log.Fatalf\<close>: the terminal was opened and is never restored.
\<close>

theorem terminal_restored_counterexample:
  "fst (main (env_ok\<lparr>Getwd := Inl ''getwd: no such file or directory''\<rparr>) [''sleep'', ''100''] []) =
     Fatalf ''cannot run: %v'' (Err ''getwd: no such file or directory'')
   \<and> TermOpened \<in> set (snd (main (env_ok\<lparr>Getwd := Inl ''getwd: no such file or directory''\<rparr>)
                              [''sleep'', ''100''] []))
   \<and> count_list (snd (main (env_ok\<lparr>Getwd := Inl ''getwd: no such file or directory''\<rparr>)
                              [''sleep'', ''100''] [])) TermRestore = 0"
  by (simp add: main_def New_def Start_def watch_def chan_send_def restart_cap_def emit_def
      usagef_def env_ok_def Let_def)

text \<open>
  Claim C9, amended. Once the terminal has been opened: when \<open>main\<close> returns, which
  it does after a signal and \<open>Close\<close>, the terminal was restored exactly once, by
  \<open>Close\<close>; when the program dies in the panic of the key listener on a failed read,
  it was restored exactly once, by the deferred call of the listener; when \<open>main\<close>
  ends because \<open>Start\<close> failed, or in the panic of \<open>New\<close>, it was restored zero
  times.
\<close>

theorem terminal_restored:
  "(fst (main env as sched) = Return \<longrightarrow>
      TermOpened \<in> set (snd (main env as sched))
      \<and> count_list (snd (main env as sched)) TermRestore = 1)
   \<and> (fst (main env as sched) = Panic nil_dereference \<longrightarrow>
        TermOpened \<in> set (snd (main env as sched))
        \<and> count_list (snd (main env as sched)) TermRestore = 1)
   \<and> (\<forall>err. fst (main env as sched) = Fatalf ''cannot run: %v'' err \<longrightarrow>
        TermOpened \<in> set (snd (main env as sched))
        \<and> count_list (snd (main env as sched)) TermRestore = 0)
   \<and> (fst (main env as sched) = Panic index_out_of_range \<longrightarrow>
        TermOpened \<in> set (snd (main env as sched))
        \<and> count_list (snd (main env as sched)) TermRestore = 0)"
proof (cases "New env as")
  case (Failed err effs)
  then show ?thesis by (simp add: main_def)
next
  case (Panicked msg effs)
  then have "effs = [WatcherCreated, TermOpened]" "msg = index_out_of_range"
    by (auto simp: New_def split: option.splits list.splits)
  with Panicked show ?thesis using panic_texts by (simp add: main_def)
next
  case (Returned r)
  then have tr: "trace r = [WatcherCreated, TermOpened]"
    by (auto simp: New_def split: option.splits list.splits)
  show ?thesis
  proof (cases "Start env [] r")
    case None
    with Returned show ?thesis by (simp add: main_def)
  next
    case (Some res)
    obtain err r1 where res: "res = (err, r1)" by (cases res)
    from Some res have q1: "quiet r r1" using quiet_Start by blast
    show ?thesis
    proof (cases err)
      case (Some e)
      with Returned \<open>Start env [] r = Some res\<close> res q1 tr show ?thesis
        by (auto simp: main_def quiet_def)
    next
      case None
      define s0 where "s0 = \<lparr>run = emit (Go KeyLoop) r1, watch_at = Waiting,
         keys_begun = False, panicked = None\<rparr>"
      define s where "s = take_turns env sched s0"
      have m: "main env as sched =
          (case panicked s of
             Some msg \<Rightarrow> (Panic msg, trace (run s))
           | None \<Rightarrow> (Return, trace (Close env (run s))))"
        unfolding s_def s0_def
        using Returned \<open>Start env [] r = Some res\<close> res None
        by (simp add: main_def Let_def)
      have q0: "quiet r (run s0)"
        using q1 quiet_emit[of "Go KeyLoop" r1] quiet_trans by (auto simp: s0_def)
      have "panicked s0 = None" by (simp add: s0_def)
      from take_turns_cases[OF this, of env sched]
      show ?thesis
      proof
        assume a: "panicked (take_turns env sched s0) = None
            \<and> quiet (run s0) (run (take_turns env sched s0))"
        then have "quiet r (run s)" using q0 quiet_trans by (auto simp: s_def)
        then obtain effs where d: "trace (run s) = [WatcherCreated, TermOpened] @ effs"
            "TermRestore \<notin> set effs"
          using tr by (auto simp: quiet_def)
        obtain effs' where d': "trace (Close env (run s)) = trace (run s) @ TermRestore # effs'"
            "TermRestore \<notin> set effs'"
          using quiet_Close by blast
        from a have "panicked s = None" by (simp add: s_def)
        then show ?thesis using m d d' by (simp add: count_list_0_iff[THEN iffD2])
      next
        assume a: "panicked (take_turns env sched s0) = Some nil_dereference
            \<and> restored_once (run s0) (run (take_turns env sched s0))"
        then have "restored_once r (run s)"
          using q0 quiet_restored_once by (auto simp: s_def)
        then obtain effs where d: "trace (run s) = [WatcherCreated, TermOpened] @ effs"
            "count_list effs TermRestore = 1"
          using tr by (auto simp: restored_once_def)
        from a have "panicked s = Some nil_dereference" by (simp add: s_def)
        then show ?thesis using m d panic_texts by simp
      qed
    qed
  qed
qed

text \<open>
  The theorem on four runs: a signal after a restart and a key; a failed read of the
  key listener; \<^verbatim>\<open>os.Getwd\<close> failing; no command.
\<close>

theorem terminal_restored_witness:
  "fst (main env_ok [''sleep'', ''100''] [ConsumerTurn, KeyTurn ''F5'']) = Return
   \<and> count_list (snd (main env_ok [''sleep'', ''100''] [ConsumerTurn, KeyTurn ''F5''])) TermRestore = 1
   \<and> fst (main env_ok [''sleep'', ''100''] [KeyReadFails ''EOF'']) = Panic nil_dereference
   \<and> count_list (snd (main env_ok [''sleep'', ''100''] [KeyReadFails ''EOF''])) TermRestore = 1
   \<and> fst (main (env_ok\<lparr>Getwd := Inl ''getwd: no such file or directory''\<rparr>) [''sleep'', ''100''] []) =
       Fatalf ''cannot run: %v'' (Err ''getwd: no such file or directory'')
   \<and> count_list (snd (main (env_ok\<lparr>Getwd := Inl ''getwd: no such file or directory''\<rparr>)
                              [''sleep'', ''100''] [])) TermRestore = 0
   \<and> fst (main env_ok [] []) = Panic index_out_of_range
   \<and> TermOpened \<in> set (snd (main env_ok [] []))
   \<and> count_list (snd (main env_ok [] [])) TermRestore = 0"
proof -
  have 1: "fst (main env_ok [''sleep'', ''100''] [ConsumerTurn, KeyTurn ''F5'']) = Return"
    using fst_main_started[of env_ok "[''sleep'', ''100'']" "[ConsumerTurn, KeyTurn ''F5'']"]
    by (simp add: env_ok_def)
  have 2: "fst (main (env_ok\<lparr>Getwd := Inl ''getwd: no such file or directory''\<rparr>) [''sleep'', ''100''] []) =
       Fatalf ''cannot run: %v'' (Err ''getwd: no such file or directory'')"
    using fst_main_started[of "env_ok\<lparr>Getwd := Inl ''getwd: no such file or directory''\<rparr>"
        "[''sleep'', ''100'']" "[]"]
    by (simp add: env_ok_def)
  have 3: "fst (main env_ok [] []) = Panic index_out_of_range"
    by (simp add: main_def New_def env_ok_def)
  have 4: "fst (main env_ok [''sleep'', ''100''] [KeyReadFails ''EOF'']) = Panic nil_dereference"
    by (rule fst_main_failed_read[where wd = "''/w''"]) (simp_all add: env_ok_def)
  note a = terminal_restored [of env_ok "[''sleep'', ''100'']" "[ConsumerTurn, KeyTurn ''F5'']"]
  note b = terminal_restored [of "env_ok\<lparr>Getwd := Inl ''getwd: no such file or directory''\<rparr>"
      "[''sleep'', ''100'']" "[]"]
  note c = terminal_restored [of env_ok "[]" "[]"]
  note d = terminal_restored [of env_ok "[''sleep'', ''100'']" "[KeyReadFails ''EOF'']"]
  from a 1 have "count_list (snd (main env_ok [''sleep'', ''100''] [ConsumerTurn, KeyTurn ''F5''])) TermRestore = 1"
    by blast
  moreover from b 2 have "count_list (snd (main (env_ok\<lparr>Getwd := Inl ''getwd: no such file or directory''\<rparr>)
                              [''sleep'', ''100''] [])) TermRestore = 0"
    by blast
  moreover from c 3 have "TermOpened \<in> set (snd (main env_ok [] []))"
    "count_list (snd (main env_ok [] [])) TermRestore = 0"
    by blast+
  moreover from d 4 have "count_list (snd (main env_ok [''sleep'', ''100''] [KeyReadFails ''EOF''])) TermRestore = 1"
    by blast
  ultimately show ?thesis using 1 2 3 4 by blast
qed

section \<open>The keyboard listener\<close>

lemmas eval_defs = kill_def Restart_def emit_def printf_def usagef_def Let_def env_ok_def run_100_def

text \<open>
  Claim C2, on the code. With process 100 running and the queue empty, each of the
  three recognised keys makes the listener run \<open>Restart\<close> itself: the interrupt goes
  to group 100, the command is started again as process 101 and recorded, and the queue
  is as it was. Nothing is pushed. A key that is not recognised changes nothing.
\<close>

theorem key_restarts_directly:
  "on_key env_ok ''F5'' run_100 = Restart env_ok run_100
   \<and> on_key env_ok ''DC2'' run_100 = Restart env_ok run_100
   \<and> on_key env_ok '' '' run_100 = Restart env_ok run_100
   \<and> restart (on_key env_ok ''F5'' run_100) = restart run_100
   \<and> process run_100 = Some 100
   \<and> process (on_key env_ok ''F5'' run_100) = Some 101
   \<and> SyscallKill (- 100) SIGINT \<in> set (trace (on_key env_ok ''F5'' run_100))
   \<and> CmdStart [''sleep'', ''100''] \<in> set (trace (on_key env_ok ''F5'' run_100))
   \<and> on_key env_ok ''x'' run_100 = run_100"
  by (simp add: on_key_def eval_defs)


section \<open>Two goroutines in Restart\<close>

text \<open>The three statements of \<open>Restart_step\<close>, taken in turn, are \<open>Restart\<close>.\<close>

lemma Restart_steps:
  "Restart env r =
     (case Restart_step env AtStart (snd (Restart_step env AtKill r)) of
        (pc, r2) \<Rightarrow> snd (Restart_step env pc r2))"
  by (simp add: Restart_def Let_def emit_def printf_def split: sum.splits)

text \<open>
  Claim C1, on the code. The consumer loop has received a signal and the key listener
  has read F5, with process 100 running; both are in \<open>Restart\<close> and take their
  statements alternately. Both find the handle cleared or clear it, both start the
  command, both assign. At the end process 102 is recorded; process 101 was started, was
  never sent a signal and is recorded nowhere. The handle was written by two goroutines
  and two children are alive.
\<close>

theorem double_start_race:
  "(case interleave env_ok [Consumer, KeyListener, Consumer, KeyListener, Consumer, KeyListener]
           (AtKill, AtKill, run_100) of
      (pc_c, pc_k, r) \<Rightarrow>
        pc_c = AtReturn \<and> pc_k = AtReturn
        \<and> process r = Some 102
        \<and> [e \<leftarrow> trace r. e \<in> {SyscallKill (- 100) SIGINT, SyscallKill (- 101) SIGINT,
                               SyscallKill (- 102) SIGINT, SyscallKill (- 101) SIGKILL,
                               Go (CmdWait 101), Go (CmdWait 102)}] =
            [SyscallKill (- 100) SIGINT, Go (CmdWait 101), Go (CmdWait 102)])"
  by (simp add: eval_defs)


section \<open>The watch loop and listener errors\<close>

text \<open>
  Any number of errors received from \<^verbatim>\<open>watcher.Errors\<close> are each logged, and the
  loop goes on with what follows.
\<close>

lemma watch_loop_logs_errors:
  "watch_loop (map (\<lambda>e. ErrorsRecv (Some e)) errs @ rest) r =
     watch_loop rest (foldl (\<lambda>r' e. printf colorRed ''Error:'' [ErrV e] r') r errs)"
  by (induction errs arbitrary: r) simp_all

text \<open>
  Claim C6, on the code. The comment above the goroutine says it watches until error
  or cancelled. An error received from \<^verbatim>\<open>watcher.Errors\<close> is logged, with a format
  that has no verb for it, and the function does not return: the loop is still
  waiting, the write that follows is reported and pushes a restart, and the watcher has
  not been closed. Only a closed channel or a done context ends the loop.
\<close>

theorem watch_loop_survives_error:
  "fst (watch_loop [ErrorsRecv (Some (Err ''fsnotify: queue or buffer overflow'')),
                    EventsRecv (Some write_main_go)] run_100) = Waiting
   \<and> restart (snd (watch_loop [ErrorsRecv (Some (Err ''fsnotify: queue or buffer overflow'')),
                    EventsRecv (Some write_main_go)] run_100)) = [True]
   \<and> trace (snd (watch_loop [ErrorsRecv (Some (Err ''fsnotify: queue or buffer overflow'')),
                    EventsRecv (Some write_main_go)] run_100)) =
       [LoggerPrintf (colorRed @ ''Error:'' @ colorReset) [ErrV (Err ''fsnotify: queue or buffer overflow'')],
        LoggerPrintf (colorGreen @ ''Modified file: %s'' @ colorReset) [StrV ''main.go'']]"
proof -
  let ?r1 = "printf colorRed ''Error:'' [ErrV (Err ''fsnotify: queue or buffer overflow'')] run_100"
  let ?r2 = "printf colorGreen ''Modified file: %s'' [StrV (ev_Name write_main_go)] ?r1"
  have s: "chan_send ?r2 = Some (?r2\<lparr>restart := [True]\<rparr>)"
    by (simp add: chan_send_def restart_cap_def restart_printf run_100_def)
  have "watch_loop [ErrorsRecv (Some (Err ''fsnotify: queue or buffer overflow'')),
                    EventsRecv (Some write_main_go)] run_100 = (Waiting, ?r2\<lparr>restart := [True]\<rparr>)"
    by (simp only: watch_loop.simps write_main_go_qualifies s simp_thms if_False if_True option.case)
  then show ?thesis
    by (simp add: trace_printf run_100_def write_main_go_def)
qed



section \<open>The scan error that watch drops\<close>

lemma WalkDir_locked_tree:
  "WalkDir walkFn ''/w'' (Inr locked_tree) [] = (Some (Err ''permission denied''), [])"
  by (simp add: WalkDir_def locked_tree_def walkFn_def path_defs
      supportedExtensionMap_iff supportedExtensions_def)

lemma Watch_Set_spec_locked_tree:
  "Watch_Set_spec ''/w'' locked_tree = [''/w/b'']"
  by (simp add: Watch_Set_spec_def locked_tree_def hidden_def qualifies_def path_defs
      supportedExtensions_def)

text \<open>
  Claim C5, on the code. In a tree whose directory \<^verbatim>\<open>a\<close> cannot be read the walk
  stops with the error, before it reaches \<^verbatim>\<open>b\<close>, which qualifies. \<open>watch\<close>
  returns no error all the same, also when the root itself cannot be examined; \<open>main\<close>
  goes on, the command is started, and \<^verbatim>\<open>b\<close> is not watched.
\<close>

theorem scan_error_dropped:
  "WalkDir walkFn ''/w'' (Inr locked_tree) [] = (Some (Err ''permission denied''), [])
   \<and> Watch_Set_spec ''/w'' locked_tree = [''/w/b'']
   \<and> fst (watch (env_ok\<lparr>Lstat := Inr locked_tree\<rparr>) run_100) = None
   \<and> fst (watch (env_ok\<lparr>Lstat := Inl ''lstat /w: permission denied''\<rparr>) run_100) = None
   \<and> fst (main (env_ok\<lparr>Lstat := Inr locked_tree\<rparr>) [''sleep'', ''100''] [ConsumerTurn]) = Return
   \<and> CmdStart [''sleep'', ''100''] \<in>
        set (snd (main (env_ok\<lparr>Lstat := Inr locked_tree\<rparr>) [''sleep'', ''100''] [ConsumerTurn]))
   \<and> WatcherAdd ''/w/b'' \<notin>
        set (snd (main (env_ok\<lparr>Lstat := Inr locked_tree\<rparr>) [''sleep'', ''100''] [ConsumerTurn]))"
proof -
  let ?env = "env_ok\<lparr>Lstat := Inr locked_tree\<rparr>"
  have g: "Getwd ?env = Inr ''/w''" "NewWatcher ?env = None" "term_Open ?env = None"
    by (simp_all add: env_ok_def)
  have 1: "fst (watch ?env run_100) = None"
    by (simp add: fst_watch g)
  have 2: "fst (watch (env_ok\<lparr>Lstat := Inl ''lstat /w: permission denied''\<rparr>) run_100) = None"
    by (simp add: fst_watch env_ok_def)
  have 3: "fst (main ?env [''sleep'', ''100''] [ConsumerTurn]) = Return"
    using fst_main_started[of ?env "[''sleep'', ''100'']" "[ConsumerTurn]"] g by simp
  have 4: "snd (main ?env [''sleep'', ''100''] [ConsumerTurn]) =
      [WatcherCreated, TermOpened,
       FmtPrintf ''%s%s\<newline>'' [StrV colorGreen, StrV separator],
       UsagePrintf (colorWhite @ ''To restart the running program, press F5 or SPACE or Ctrl-R, or just make file changes.'' @ colorReset) [],
       Go ConsumerLoop,
       UsagePrintf (colorWhite @ ''The following directories are being monitored'' @ colorReset) [],
       Go WatchLoop,
       Go KeyLoop,
       CmdStart [''sleep'', ''100''],
       FmtPrintf ''%s%s\<newline>'' [StrV colorGreen, StrV separator],
       LoggerPrintf (colorWhite @ ''Process %d started for command: %s%s'' @ colorReset)
         [IntV 101, StrV colorCyan, CmdV [''sleep'', ''100'']],
       FmtPrintf ''%s%s%s\<newline>'' [StrV colorGreen, StrV separator, StrV colorReset],
       Go (CmdWait 101),
       TermRestore,
       WatcherClose,
       SyscallKill (- 101) SIGINT]"
    by (simp add: main_def New_def Start_def watch_def WalkDir_locked_tree chan_send_def
        restart_cap_def Close_def kill_def Restart_def emit_def printf_def usagef_def
        env_ok_def Let_def)
  from 1 2 3 4 show ?thesis
    using WalkDir_locked_tree Watch_Set_spec_locked_tree by simp
qed


end
